theory Spec2Isabelle
  imports Main "HOL-Library.Multiset" "HOL-Library.Char_ord" "HOL-Library.List_Lexorder"
    "HOL-Library.Product_Lexorder"
begin

section \<open>Utilities (src/src/main.cpp, lines 27-67)\<close>

text \<open>
  A \<open>std::string\<close> is a byte sequence: \<^typ>\<open>string\<close>. The order on bytes is the one of
  \<open>unsigned char\<close> (theory \<open>Char_ord\<close>), the order on strings and on vectors of strings is
  lexicographic (theory \<open>List_Lexorder\<close>), as \<open>operator<\<close> of \<open>std::string\<close> and of
  \<open>std::vector\<close> is. A \<open>size_t\<close> is a \<^typ>\<open>nat\<close>: every value the program computes is a
  line index or a line count of a file held in memory, far below \<open>2^64\<close>.
\<close>

abbreviation LF :: char where "LF \<equiv> CHR 0x0A"

abbreviation CR :: char where "CR \<equiv> CHR 0x0D"

definition strip_utf8_bom :: "string \<Rightarrow> string" where
  "strip_utf8_bom s =
     (if 3 \<le> length s \<and> s ! 0 = CHR 0xEF \<and> s ! 1 = CHR 0xBB \<and> s ! 2 = CHR 0xBF
      then drop 3 s else s)"

definition rstrip_cr :: "string \<Rightarrow> string" where
  "rstrip_cr s = (if s \<noteq> [] \<and> last s = CR then butlast s else s)"

definition strip_indent :: "string \<Rightarrow> string" where
  "strip_indent inp = dropWhile (\<lambda>c. c = CHR '' '' \<or> c = CHR 0x09) inp"

section \<open>Glob engine (lines 124-158, 205-228)\<close>

text \<open>The characters \<open>to_regex_from_glob_suffix\<close> escapes with a backslash.\<close>

definition regex_specials :: "char list" where
  "regex_specials = ''.+()^$|{}[]'' @ [CHR 0x5C]"

text \<open>
  The loop of \<open>to_regex_from_glob_suffix\<close>: a run of stars is consumed whole and gives
  \<open>.*\<close> when it has two or more stars, \<open>[^/]*\<close> when it has one; \<open>?\<close> gives
  \<open>[^/]\<close>; every other character stands for itself, escaped when it is special.
\<close>

function to_regex_body :: "string \<Rightarrow> string" where
  "to_regex_body [] = []"
| "to_regex_body (c # cs) =
     (if c = CHR ''*'' then
        (let stars = Suc (length (takeWhile (\<lambda>x. x = CHR ''*'') cs))
         in (if 2 \<le> stars then ''.*'' else ''[^/]*'')
              @ to_regex_body (dropWhile (\<lambda>x. x = CHR ''*'') cs))
      else if c = CHR ''?'' then ''[^/]'' @ to_regex_body cs
      else (if c \<in> set regex_specials then [CHR 0x5C, c] else [c]) @ to_regex_body cs)"
  by pat_completeness auto
termination
  by (relation "measure length") (auto simp: le_imp_less_Suc length_dropWhile_le)

definition to_regex_from_glob_suffix :: "string \<Rightarrow> string" where
  "to_regex_from_glob_suffix suffix = ''^'' @ to_regex_body suffix @ ''$''"

text \<open>
  \<open>std::regex\<close> with the ECMAScript grammar, for the patterns the translation emits: the
  assertions \<open>^\<close> and \<open>$\<close>, the atom \<open>.\<close> (any character but a line terminator, that
  is a line feed or a carriage return), the class \<open>[^/]\<close>, an escaped special character,
  any other character, and the quantifier \<open>*\<close> after an atom. A pattern outside this
  fragment parses to \<open>None\<close>.
\<close>

datatype rx_atom = RxBegin | RxEnd | RxAny | RxNotSlash | RxChar char

fun atom_ok :: "rx_atom \<Rightarrow> char \<Rightarrow> bool" where
  "atom_ok RxAny c = (c \<noteq> LF \<and> c \<noteq> CR)"
| "atom_ok RxNotSlash c = (c \<noteq> CHR ''/'')"
| "atom_ok (RxChar d) c = (c = d)"
| "atom_ok RxBegin c = False"
| "atom_ok RxEnd c = False"

definition rx_atom_at :: "string \<Rightarrow> (rx_atom \<times> string) option" where
  "rx_atom_at s =
     (case s of
        [] \<Rightarrow> None
      | c # cs \<Rightarrow>
          if c = CHR ''^'' then Some (RxBegin, cs)
          else if c = CHR ''$'' then Some (RxEnd, cs)
          else if c = CHR ''.'' then Some (RxAny, cs)
          else if c = CHR ''['' then
            (if take 3 cs = ''^/]'' then Some (RxNotSlash, drop 3 cs) else None)
          else if c = CHR 0x5C then
            (case cs of
               [] \<Rightarrow> None
             | d # ds \<Rightarrow> if d \<in> set regex_specials then Some (RxChar d, ds) else None)
          else if c \<in> set ''*+?()|{}]'' then None
          else Some (RxChar c, cs))"

function rx_parse :: "string \<Rightarrow> (rx_atom \<times> bool) list option" where
  "rx_parse s =
     (if s = [] then Some []
      else case rx_atom_at s of
        None \<Rightarrow> None
      | Some (a, r) \<Rightarrow>
          (case r of
             c # r' \<Rightarrow>
               if c = CHR ''*'' then
                 (if a = RxBegin \<or> a = RxEnd then None
                  else map_option (Cons (a, True)) (rx_parse r'))
               else map_option (Cons (a, False)) (rx_parse r)
           | [] \<Rightarrow> map_option (Cons (a, False)) (rx_parse r)))"
  by pat_completeness auto
termination
proof -
  have shorter: "length r < length s" if "rx_atom_at s = Some (a, r)" for s a r
    using that by (auto simp: rx_atom_at_def split: list.splits if_splits)
  show ?thesis
    by (relation "measure length") (auto dest: shorter)
qed

declare rx_parse.simps [simp del]

text \<open>
  \<open>rx_match items at_start s\<close>: the items match the whole of the remaining input \<open>s\<close>;
  \<open>at_start\<close> tells whether \<open>s\<close> is the whole input.
\<close>

fun rx_match :: "(rx_atom \<times> bool) list \<Rightarrow> bool \<Rightarrow> string \<Rightarrow> bool" where
  "rx_match [] at_start s = (s = [])"
| "rx_match ((RxBegin, q) # r) at_start s = (at_start \<and> rx_match r at_start s)"
| "rx_match ((RxEnd, q) # r) at_start s = (s = [] \<and> rx_match r at_start s)"
| "rx_match ((a, False) # r) at_start s =
     (case s of [] \<Rightarrow> False | c # cs \<Rightarrow> atom_ok a c \<and> rx_match r False cs)"
| "rx_match ((a, True) # r) at_start s =
     (rx_match r at_start s
      \<or> (case s of [] \<Rightarrow> False | c # cs \<Rightarrow> atom_ok a c \<and> rx_match ((a, True) # r) False cs))"

text \<open>\<open>std::regex_match(s, std::regex(re, ECMAScript))\<close>.\<close>

definition regex_match :: "string \<Rightarrow> string \<Rightarrow> bool option" where
  "regex_match s re = map_option (\<lambda>items. rx_match items True s) (rx_parse re)"

text \<open>The test \<open>expand_globs\<close> applies to the path of a file relative to the base.\<close>

definition glob_match :: "string \<Rightarrow> string \<Rightarrow> bool option" where
  "glob_match suffix rel = regex_match rel (to_regex_from_glob_suffix suffix)"

section \<open>Data model (lines 237-251, 294-297)\<close>

record FileData =
  path :: string
  lines :: "string list"

record Hit =
  path :: string
  start_line :: nat
  end_line :: nat

record DuplicateBlock =
  lines :: "string list"
  hits :: "Hit list"

text \<open>\<open>file_index\<close> is an \<open>int\<close> in the source; it only ever holds an index into \<open>files\<close>.\<close>

record Occurrence =
  file_index :: nat
  start :: nat

section \<open>Line loader (lines 253-271)\<close>

text \<open>
  The file system is a function from a path to the bytes of the file, \<open>None\<close> when the
  stream cannot be opened. \<open>getlines cur s\<close> is the loop of \<open>std::getline\<close> calls on the
  remaining input \<open>s\<close>, \<open>cur\<close> being the characters already extracted for the current
  line: a line ends at a line feed, which is dropped; at the end of input a call that
  extracted characters still yields a line, one that extracted none fails and ends the loop.
\<close>

fun getlines :: "string \<Rightarrow> string \<Rightarrow> string list" where
  "getlines cur [] = (if cur = [] then [] else [cur])"
| "getlines cur (c # cs) = (if c = LF then cur # getlines [] cs else getlines (cur @ [c]) cs)"

fun normalize_lines :: "bool \<Rightarrow> string list \<Rightarrow> string list" where
  "normalize_lines first [] = []"
| "normalize_lines first (l # ls) =
     (let l1 = rstrip_cr l;
          l2 = (if first then strip_utf8_bom l1 else l1)
      in l2 # normalize_lines False ls)"

definition read_lines_normalized :: "(string \<Rightarrow> string option) \<Rightarrow> string \<Rightarrow> string list" where
  "read_lines_normalized fs p =
     (case fs p of None \<Rightarrow> [] | Some content \<Rightarrow> normalize_lines True (getlines [] content))"

section \<open>Seed keys (lines 283-292)\<close>

text \<open>
  The \<open>ostringstream\<close> loop of \<open>join_lines_norm\<close>: the lines \<open>v[i..j)\<close>, each stripped of
  its indentation when \<open>ignore_indent\<close> is set, separated by line feeds. The source reads
  \<open>v[k]\<close> for \<open>i \<le> k < j\<close> and every caller has \<open>j \<le> v.size()\<close>.
\<close>

fun join_nl :: "string list \<Rightarrow> string" where
  "join_nl [] = []"
| "join_nl [x] = x"
| "join_nl (x # y # ys) = x @ LF # join_nl (y # ys)"

definition join_lines_norm :: "string list \<Rightarrow> nat \<Rightarrow> nat \<Rightarrow> bool \<Rightarrow> string" where
  "join_lines_norm v i j ignore_indent =
     join_nl (map (\<lambda>l. if ignore_indent then strip_indent l else l) (take (j - i) (drop i v)))"

section \<open>Unordered maps\<close>

text \<open>
  A \<open>std::unordered_map<std::string, V>\<close> is an association list with distinct keys.
  \<open>umap_upd d f k m\<close> is \<open>m[k] = f(m[k])\<close>, where \<open>operator[]\<close> inserts the
  default-constructed value \<open>d\<close> for a key that is absent. The order in which a range-for
  enumerates the entries is implementation-defined: every loop over a map takes it as a
  parameter, a function that rearranges the entries.
\<close>

type_synonym 'v umap = "(string \<times> 'v) list"

fun umap_upd :: "'v \<Rightarrow> ('v \<Rightarrow> 'v) \<Rightarrow> string \<Rightarrow> 'v umap \<Rightarrow> 'v umap" where
  "umap_upd d f k [] = [(k, f d)]"
| "umap_upd d f k ((k', v) # m) =
     (if k' = k then (k', f v) # m else (k', v) # umap_upd d f k m)"

definition iteration_order :: "('v umap \<Rightarrow> 'v umap) \<Rightarrow> bool" where
  "iteration_order it = (\<forall>m. mset (it m) = mset m)"

section \<open>Maximal extension of a seed group (lines 299-362)\<close>

definition equal_line :: "bool \<Rightarrow> string \<Rightarrow> string \<Rightarrow> bool" where
  "equal_line ignore_indent a b =
     (if \<not> ignore_indent then a = b else strip_indent a = strip_indent b)"

text \<open>
  A read of \<open>files[fi].lines[k]\<close>; \<open>None\<close> where the source would index out of range.
\<close>

definition line_at :: "FileData list \<Rightarrow> nat \<Rightarrow> nat \<Rightarrow> string option" where
  "line_at files fi k =
     (if fi < length files \<and> k < length (FileData.lines (files ! fi))
      then Some (FileData.lines (files ! fi) ! k) else None)"

text \<open>
  The inner loop of the backward extension over \<open>occs[1..]\<close>: it stops at the first
  occurrence whose previous line differs from \<open>ref\<close>.
\<close>

fun all_prev_equal :: "FileData list \<Rightarrow> bool \<Rightarrow> string \<Rightarrow> Occurrence list \<Rightarrow> bool option" where
  "all_prev_equal files ign ref [] = Some True"
| "all_prev_equal files ign ref (oc # ocs) =
     (case line_at files (file_index oc) (start oc - 1) of
        None \<Rightarrow> None
      | Some l \<Rightarrow> if \<not> equal_line ign l ref then Some False
                  else all_prev_equal files ign ref ocs)"

text \<open>
  One evaluation of the body of the backward loop up to the decision \<open>can\<close>:
  \<open>Some True\<close> when every occurrence is extended by one line, \<open>Some False\<close> when the loop
  ends, \<open>None\<close> when the source reads out of range (an empty group, a stale index).
\<close>

definition can_extend_backward :: "FileData list \<Rightarrow> bool \<Rightarrow> Occurrence list \<Rightarrow> bool option" where
  "can_extend_backward files ign occs =
     (if list_ex (\<lambda>oc. start oc = 0) occs then Some False
      else case occs of
        [] \<Rightarrow> None
      | oc0 # rest \<Rightarrow>
          (case line_at files (file_index oc0) (start oc0 - 1) of
             None \<Rightarrow> None
           | Some ref \<Rightarrow> all_prev_equal files ign ref rest))"

definition step_back :: "Occurrence \<Rightarrow> Occurrence" where
  "step_back oc = oc\<lparr>start := start oc - 1\<rparr>"

function extend_backward :: "FileData list \<Rightarrow> bool \<Rightarrow> Occurrence list \<Rightarrow> Occurrence list option" where
  "extend_backward files ign occs =
     (case can_extend_backward files ign occs of
        None \<Rightarrow> None
      | Some False \<Rightarrow> Some occs
      | Some True \<Rightarrow> extend_backward files ign (map step_back occs))"
  by pat_completeness auto
termination
proof (relation "measure (\<lambda>(files, ign, occs). sum_list (map start occs))", goal_cases)
  case 1
  show ?case by simp
next
  case (2 files ign occs x2)
  then have ne: "occs \<noteq> []" and pos: "\<forall>oc\<in>set occs. 0 < start oc"
    by (auto simp: can_extend_backward_def list_ex_iff split: if_splits list.splits)
  have "ys \<noteq> [] \<Longrightarrow> \<forall>oc\<in>set ys. 0 < start oc
          \<Longrightarrow> sum_list (map (start \<circ> step_back) ys) < sum_list (map start ys)"
    for ys :: "Occurrence list"
  proof (induction ys)
    case Nil
    then show ?case by simp
  next
    case (Cons y ys)
    then show ?case by (cases ys) (auto simp: step_back_def)
  qed
  with ne pos show ?case by simp
qed

text \<open>The inner loop of the forward extension over \<open>occs[1..]\<close>.\<close>

fun all_next_equal :: "FileData list \<Rightarrow> bool \<Rightarrow> string \<Rightarrow> nat \<Rightarrow> Occurrence list \<Rightarrow> bool option" where
  "all_next_equal files ign ref len [] = Some True"
| "all_next_equal files ign ref len (oc # ocs) =
     (if length files \<le> file_index oc then None
      else let fi = FileData.lines (files ! file_index oc); next_idx = start oc + len
           in if length fi \<le> next_idx \<or> \<not> equal_line ign (fi ! next_idx) ref then Some False
              else all_next_equal files ign ref len ocs)"

definition can_extend_forward :: "FileData list \<Rightarrow> bool \<Rightarrow> Occurrence list \<Rightarrow> nat \<Rightarrow> bool option" where
  "can_extend_forward files ign occs len =
     (case occs of
        [] \<Rightarrow> None
      | oc0 # rest \<Rightarrow>
          if length files \<le> file_index oc0 then None
          else let f0 = FileData.lines (files ! file_index oc0); next_idx0 = start oc0 + len
               in if length f0 \<le> next_idx0 then Some False
                  else all_next_equal files ign (f0 ! next_idx0) len rest)"

function extend_forward :: "FileData list \<Rightarrow> bool \<Rightarrow> Occurrence list \<Rightarrow> nat \<Rightarrow> nat option" where
  "extend_forward files ign occs len =
     (case can_extend_forward files ign occs len of
        None \<Rightarrow> None
      | Some False \<Rightarrow> Some len
      | Some True \<Rightarrow> extend_forward files ign occs (len + 1))"
  by pat_completeness auto
termination
  by (relation "measure (\<lambda>(files, ign, occs, len).
        length (FileData.lines (files ! file_index (hd occs))) - (start (hd occs) + len))")
     (auto simp: can_extend_forward_def Let_def split: list.splits if_splits)

declare extend_backward.simps [simp del] extend_forward.simps [simp del]

definition hit_of :: "FileData list \<Rightarrow> nat \<Rightarrow> Occurrence \<Rightarrow> Hit" where
  "hit_of files len oc =
     \<lparr>Hit.path = FileData.path (files ! file_index oc),
      start_line = start oc + 1,
      end_line = start oc + len\<rparr>"

definition build_maximal_block ::
  "FileData list \<Rightarrow> Occurrence list \<Rightarrow> nat \<Rightarrow> bool \<Rightarrow> DuplicateBlock option" where
  "build_maximal_block files occs_in seed_len ignore_indent =
     (case extend_backward files ignore_indent occs_in of
        None \<Rightarrow> None
      | Some occs \<Rightarrow>
         (case extend_forward files ignore_indent occs seed_len of
            None \<Rightarrow> None
          | Some len \<Rightarrow>
             (case occs of
                [] \<Rightarrow> None
              | oc0 # _ \<Rightarrow>
                 if list_all (\<lambda>oc. file_index oc < length files) occs
                    \<and> start oc0 + len \<le> length (FileData.lines (files ! file_index oc0))
                 then Some \<lparr>DuplicateBlock.lines =
                              take len (drop (start oc0) (FileData.lines (files ! file_index oc0))),
                            hits = map (hit_of files len) occs\<rparr>
                 else None)))"

section \<open>Aggregation of the blocks of all seed groups (lines 364-438)\<close>

definition load_files :: "(string \<Rightarrow> string option) \<Rightarrow> string list \<Rightarrow> FileData list" where
  "load_files fs files_paths =
     map (\<lambda>p. \<lparr>FileData.path = p, lines = read_lines_normalized fs p\<rparr>) files_paths"

text \<open>
  The seed map: for every file with at least \<open>min_lines\<close> lines and every \<open>i\<close> with
  \<open>i + min_lines \<le> f.lines.size()\<close>, \<open>seeds[key].push_back({idx, i})\<close>.
\<close>

definition seed_file ::
  "nat \<Rightarrow> bool \<Rightarrow> nat \<Rightarrow> FileData \<Rightarrow> Occurrence list umap \<Rightarrow> Occurrence list umap" where
  "seed_file min_lines ign idx f seeds =
     (if length (FileData.lines f) < min_lines then seeds
      else fold (\<lambda>i. umap_upd [] (\<lambda>v. v @ [\<lparr>file_index = idx, start = i\<rparr>])
                        (join_lines_norm (FileData.lines f) i (i + min_lines) ign))
             [0..<Suc (length (FileData.lines f) - min_lines)] seeds)"

definition build_seeds :: "FileData list \<Rightarrow> nat \<Rightarrow> bool \<Rightarrow> Occurrence list umap" where
  "build_seeds files min_lines ign =
     fold (\<lambda>idx. seed_file min_lines ign idx (files ! idx)) [0..<length files] []"

text \<open>
  The decimal digits \<open>operator<<\<close> writes for a \<open>size_t\<close>, and the key of a hit:
  \<open>key << h.path << '\n' << h.start_line << '\n' << h.end_line\<close>.
\<close>

fun dec_str :: "nat \<Rightarrow> string" where
  "dec_str n =
     (if n < 10 then [''0123456789'' ! n]
      else dec_str (n div 10) @ [''0123456789'' ! (n mod 10)])"

declare dec_str.simps [simp del]

definition hit_key :: "Hit \<Rightarrow> string" where
  "hit_key h = Hit.path h @ LF # dec_str (start_line h) @ LF # dec_str (end_line h)"

text \<open>The local struct \<open>Agg\<close>; \<open>hit_keys\<close> is a \<open>std::unordered_set<std::string>\<close>.\<close>

record Agg =
  lines :: "string list"
  hit_keys :: "string set"
  hits :: "Hit list"

definition empty_agg :: Agg where
  "empty_agg = \<lparr>Agg.lines = [], hit_keys = {}, hits = []\<rparr>"

text \<open>The loop over \<open>block.hits\<close>: a hit is appended when its key is new.\<close>

fun add_hits :: "Hit list \<Rightarrow> Agg \<Rightarrow> Agg" where
  "add_hits [] agg = agg"
| "add_hits (h # hs) agg =
     (if hit_key h \<in> hit_keys agg then add_hits hs agg
      else add_hits hs (agg\<lparr>hit_keys := insert (hit_key h) (hit_keys agg),
                             hits := Agg.hits agg @ [h]\<rparr>))"

definition merge_block :: "DuplicateBlock \<Rightarrow> Agg \<Rightarrow> Agg" where
  "merge_block block agg =
     add_hits (DuplicateBlock.hits block)
       (if Agg.lines agg = [] then agg\<lparr>Agg.lines := DuplicateBlock.lines block\<rparr> else agg)"

definition content_key :: "bool \<Rightarrow> DuplicateBlock \<Rightarrow> string" where
  "content_key ign block =
     join_lines_norm (DuplicateBlock.lines block) 0 (length (DuplicateBlock.lines block)) ign"

text \<open>
  The loop over the seed map, in the order \<open>seed_order\<close> the map enumerates its
  entries: groups of fewer than two occurrences are skipped, every other group is
  extended and merged into \<open>by_content\<close>.
\<close>

fun build_groups ::
  "FileData list \<Rightarrow> nat \<Rightarrow> bool \<Rightarrow> Occurrence list umap \<Rightarrow> Agg umap \<Rightarrow> Agg umap option" where
  "build_groups files min_lines ign [] by_content = Some by_content"
| "build_groups files min_lines ign ((seed, occs) # rest) by_content =
     (if length occs < 2 then build_groups files min_lines ign rest by_content
      else case build_maximal_block files occs min_lines ign of
        None \<Rightarrow> None
      | Some block \<Rightarrow>
          build_groups files min_lines ign rest
            (umap_upd empty_agg (merge_block block) (content_key ign block) by_content))"

text \<open>The final loop over \<open>by_content\<close>: aggregates with at least two hits.\<close>

definition final_list :: "Agg umap \<Rightarrow> DuplicateBlock list" where
  "final_list by_content =
     map (\<lambda>(_, agg). \<lparr>DuplicateBlock.lines = Agg.lines agg, hits = Agg.hits agg\<rparr>)
       (filter (\<lambda>(_, agg). 2 \<le> length (Agg.hits agg)) by_content)"

text \<open>
  \<open>find_blocks\<close> is the body of \<open>find_repeated_blocks\<close> after the files are loaded;
  \<open>seed_order\<close> and \<open>content_order\<close> are the enumeration orders of the two unordered maps.
  The result is \<open>None\<close> when \<open>build_maximal_block\<close> would read out of range.
\<close>

definition find_blocks ::
  "FileData list \<Rightarrow> nat \<Rightarrow> bool \<Rightarrow> (Occurrence list umap \<Rightarrow> Occurrence list umap)
     \<Rightarrow> (Agg umap \<Rightarrow> Agg umap) \<Rightarrow> DuplicateBlock list option" where
  "find_blocks files min_lines ign seed_order content_order =
     (case build_groups files min_lines ign (seed_order (build_seeds files min_lines ign)) [] of
        None \<Rightarrow> None
      | Some by_content \<Rightarrow> Some (final_list (content_order by_content)))"

definition find_repeated_blocks ::
  "(string \<Rightarrow> string option) \<Rightarrow> string list \<Rightarrow> nat \<Rightarrow> bool
     \<Rightarrow> (Occurrence list umap \<Rightarrow> Occurrence list umap)
     \<Rightarrow> (Agg umap \<Rightarrow> Agg umap) \<Rightarrow> DuplicateBlock list option" where
  "find_repeated_blocks fs files_paths min_lines ign seed_order content_order =
     find_blocks (load_files fs files_paths) min_lines ign seed_order content_order"

section \<open>Ordering of the output (lines 458-464, 546-552)\<close>

text \<open>
  \<open>std::sort\<close> with a comparator that is a strict weak ordering returns a sorted
  permutation; the order of equivalent elements is unspecified and taken here to be the one
  of an insertion sort.
\<close>

fun insort_by :: "('a \<Rightarrow> 'a \<Rightarrow> bool) \<Rightarrow> 'a \<Rightarrow> 'a list \<Rightarrow> 'a list" where
  "insort_by lt x [] = [x]"
| "insort_by lt x (y # ys) = (if lt y x then y # insort_by lt x ys else x # y # ys)"

definition sort_by :: "('a \<Rightarrow> 'a \<Rightarrow> bool) \<Rightarrow> 'a list \<Rightarrow> 'a list" where
  "sort_by lt xs = foldr (insort_by lt) xs []"

text \<open>The comparator of the block sort in \<open>main\<close>.\<close>

definition block_less :: "DuplicateBlock \<Rightarrow> DuplicateBlock \<Rightarrow> bool" where
  "block_less a b =
     (if length (DuplicateBlock.lines a) \<noteq> length (DuplicateBlock.lines b)
      then length (DuplicateBlock.lines a) > length (DuplicateBlock.lines b)
      else if length (DuplicateBlock.hits a) \<noteq> length (DuplicateBlock.hits b)
      then length (DuplicateBlock.hits a) > length (DuplicateBlock.hits b)
      else if DuplicateBlock.lines a \<noteq> [] \<and> DuplicateBlock.lines b \<noteq> []
              \<and> hd (DuplicateBlock.lines a) \<noteq> hd (DuplicateBlock.lines b)
      then hd (DuplicateBlock.lines a) < hd (DuplicateBlock.lines b)
      else DuplicateBlock.lines a < DuplicateBlock.lines b)"

text \<open>The comparator of the hit sort in \<open>print_yaml\<close>.\<close>

definition hit_less :: "Hit \<Rightarrow> Hit \<Rightarrow> bool" where
  "hit_less a b =
     (if Hit.path a \<noteq> Hit.path b then Hit.path a < Hit.path b
      else if start_line a \<noteq> start_line b then start_line a < start_line b
      else end_line a < end_line b)"

text \<open>
  \<open>detect_duplicates\<close> is what \<open>main\<close> does with the resolved file list: it finds the
  blocks, sorts them, and \<open>print_yaml\<close> emits every block with its hits sorted.
\<close>

definition emitted :: "DuplicateBlock \<Rightarrow> DuplicateBlock" where
  "emitted b = b\<lparr>DuplicateBlock.hits := sort_by hit_less (DuplicateBlock.hits b)\<rparr>"

definition detect_duplicates ::
  "(string \<Rightarrow> string option) \<Rightarrow> string list \<Rightarrow> nat \<Rightarrow> bool
     \<Rightarrow> (Occurrence list umap \<Rightarrow> Occurrence list umap)
     \<Rightarrow> (Agg umap \<Rightarrow> Agg umap) \<Rightarrow> DuplicateBlock list option" where
  "detect_duplicates fs files_paths min_lines ign seed_order content_order =
     map_option (\<lambda>blocks. map emitted (sort_by block_less blocks))
       (find_repeated_blocks fs files_paths min_lines ign seed_order content_order)"

section \<open>Scenarios\<close>

text \<open>The bytes of a text file that holds the given lines, each ended by a line feed.\<close>

definition file_text :: "string list \<Rightarrow> string" where
  "file_text ls = concat (map (\<lambda>l. l @ [LF]) ls)"

text \<open>Scenario A of the specification.\<close>

definition scenario_a :: "string \<Rightarrow> string option" where
  "scenario_a = [''file1'' \<mapsto> file_text [''A'', ''B'', ''C'', ''D'', ''E''],
                 ''file2'' \<mapsto> file_text [''B'', ''C'', ''D'', ''E'', ''F'']]"

text \<open>Scenario B: two identical files, shorter than the three lines asked for.\<close>

definition scenario_b :: "string \<Rightarrow> string option" where
  "scenario_b = [''file1'' \<mapsto> file_text [''A'', ''B''],
                 ''file2'' \<mapsto> file_text [''A'', ''B'']]"

text \<open>Scenario C of the specification: the third lines differ in indentation only.\<close>

definition scenario_c :: "string \<Rightarrow> string option" where
  "scenario_c = [''file1'' \<mapsto> file_text [''a'', ''b'', ''  x''],
                 ''file2'' \<mapsto> file_text [''a'', ''b'', ''x'']]"

text \<open>Three files that share a three-line region and a two-line region.\<close>

definition scenario_two_blocks :: "string \<Rightarrow> string option" where
  "scenario_two_blocks =
     [''f1'' \<mapsto> file_text [''A'', ''B'', ''C'', ''X'', ''P'', ''Q''],
      ''f2'' \<mapsto> file_text [''A'', ''B'', ''C'', ''Y'', ''P'', ''Q''],
      ''f3'' \<mapsto> file_text [''P'', ''Q'']]"

text \<open>Two files that agree on three lines between different lines.\<close>

definition scenario_inner :: "string \<Rightarrow> string option" where
  "scenario_inner = [''f1'' \<mapsto> file_text [''X'', ''B'', ''C'', ''D'', ''Y''],
                     ''f2'' \<mapsto> file_text [''B'', ''C'', ''D'', ''Z'']]"

section \<open>Notions of the statements\<close>

text \<open>
  The claims are stated with the following notions; none of them is part of the program.
\<close>

text \<open>
  The order the specification asks of two blocks, the first listed before the second:
  more lines first; among blocks of as many lines, more hits first; among those, ascending
  content (the first line, then the whole line sequence).
\<close>

definition blocks_ordered :: "DuplicateBlock \<Rightarrow> DuplicateBlock \<Rightarrow> bool" where
  "blocks_ordered a b =
     (length (DuplicateBlock.lines b) < length (DuplicateBlock.lines a)
      \<or> (length (DuplicateBlock.lines a) = length (DuplicateBlock.lines b)
         \<and> (length (DuplicateBlock.hits b) < length (DuplicateBlock.hits a)
            \<or> (length (DuplicateBlock.hits a) = length (DuplicateBlock.hits b)
               \<and> DuplicateBlock.lines a \<le> DuplicateBlock.lines b
               \<and> (DuplicateBlock.lines a = [] \<or> DuplicateBlock.lines b = []
                   \<or> hd (DuplicateBlock.lines a) \<le> hd (DuplicateBlock.lines b))))))"

text \<open>The order asked of two hits of a block: by path, then start line, then end line.\<close>

definition hits_ordered :: "Hit \<Rightarrow> Hit \<Rightarrow> bool" where
  "hits_ordered a b =
     (Hit.path a < Hit.path b
      \<or> (Hit.path a = Hit.path b
         \<and> (start_line a < start_line b
            \<or> (start_line a = start_line b \<and> end_line a \<le> end_line b))))"

text \<open>
  \<open>content p\<close> is the line sequence loaded for the path \<open>p\<close>. A set of hits can be
  extended backward when every hit has a line before it and these lines are all equal
  under the comparison mode; forward likewise for the line after each hit.
\<close>

definition extendable_backward :: "(string \<Rightarrow> string list) \<Rightarrow> bool \<Rightarrow> Hit set \<Rightarrow> bool" where
  "extendable_backward content ign H \<longleftrightarrow>
     (\<forall>h\<in>H. 2 \<le> start_line h
        \<and> (\<forall>g\<in>H. equal_line ign (content (Hit.path h) ! (start_line h - 2))
                                 (content (Hit.path g) ! (start_line g - 2))))"

definition extendable_forward :: "(string \<Rightarrow> string list) \<Rightarrow> bool \<Rightarrow> Hit set \<Rightarrow> bool" where
  "extendable_forward content ign H \<longleftrightarrow>
     (\<forall>h\<in>H. end_line h < length (content (Hit.path h))
        \<and> (\<forall>g\<in>H. equal_line ign (content (Hit.path h) ! end_line h)
                                 (content (Hit.path g) ! end_line g)))"

text \<open>
  The lines of the file of an occurrence; a line as the comparison mode sees it; the
  window of \<open>len\<close> lines at an occurrence, as the comparison mode sees it; the locations
  (file, start offset) of all windows of \<open>min_lines\<close> lines, in the order the seed loops
  visit them.
\<close>

definition flines :: "FileData list \<Rightarrow> Occurrence \<Rightarrow> string list" where
  "flines files oc = FileData.lines (files ! file_index oc)"

definition norm_line :: "bool \<Rightarrow> string \<Rightarrow> string" where
  "norm_line ign l = (if ign then strip_indent l else l)"

definition nslice :: "FileData list \<Rightarrow> bool \<Rightarrow> nat \<Rightarrow> Occurrence \<Rightarrow> string list" where
  "nslice files ign len oc = map (norm_line ign) (take len (drop (start oc) (flines files oc)))"

definition positions :: "FileData list \<Rightarrow> nat \<Rightarrow> Occurrence list" where
  "positions files min_lines =
     concat (map (\<lambda>idx. if length (FileData.lines (files ! idx)) < min_lines then []
                         else map (\<lambda>i. \<lparr>file_index = idx, start = i\<rparr>)
                                [0..<Suc (length (FileData.lines (files ! idx)) - min_lines)])
               [0..<length files])"

text \<open>
  No window of \<open>min_lines\<close> lines occurs, under the comparison mode, at two distinct
  locations (file, start offset) of the file set.
\<close>

definition no_repeated_window :: "FileData list \<Rightarrow> nat \<Rightarrow> bool \<Rightarrow> bool" where
  "no_repeated_window files min_lines ign \<longleftrightarrow>
     (\<forall>oc\<in>set (positions files min_lines). \<forall>oc'\<in>set (positions files min_lines).
        oc \<noteq> oc' \<longrightarrow> nslice files ign min_lines oc \<noteq> nslice files ign min_lines oc')"

section \<open>Notions of the proofs\<close>

text \<open>The number a digit string denotes; it inverts \<open>dec_str\<close>.\<close>

definition undec :: "string \<Rightarrow> nat" where
  "undec s = foldl (\<lambda>a c. 10 * a + (of_char c - 48)) 0 s"

text \<open>
  The key the seed loop computes for an occurrence, and one \<open>seeds[key].push_back(oc)\<close>.
\<close>

definition seed_key :: "FileData list \<Rightarrow> nat \<Rightarrow> bool \<Rightarrow> Occurrence \<Rightarrow> string" where
  "seed_key files min_lines ign oc =
     join_lines_norm (FileData.lines (files ! file_index oc)) (start oc) (start oc + min_lines) ign"

definition push_occ :: "FileData list \<Rightarrow> nat \<Rightarrow> bool \<Rightarrow> Occurrence
    \<Rightarrow> Occurrence list umap \<Rightarrow> Occurrence list umap" where
  "push_occ files min_lines ign oc = umap_upd [] (\<lambda>v. v @ [oc]) (seed_key files min_lines ign oc)"

text \<open>The seed loops visit the occurrences in the order of this pair.\<close>

definition occ_pos :: "Occurrence \<Rightarrow> nat \<times> nat" where
  "occ_pos oc = (file_index oc, start oc)"

text \<open>
  An occurrence whose \<open>len\<close> lines lie in its file; a group whose occurrences all show
  the same \<open>len\<close> lines; the conditions under which the two loops extend a group by one
  line; an occurrence moved back by \<open>a\<close> lines.
\<close>

definition valid_occ :: "FileData list \<Rightarrow> nat \<Rightarrow> Occurrence \<Rightarrow> bool" where
  "valid_occ files len oc \<longleftrightarrow>
     file_index oc < length files \<and> start oc + len \<le> length (flines files oc)"

definition agree :: "FileData list \<Rightarrow> bool \<Rightarrow> nat \<Rightarrow> Occurrence list \<Rightarrow> bool" where
  "agree files ign len occs \<longleftrightarrow>
     (\<forall>oc\<in>set occs. nslice files ign len oc = nslice files ign len (hd occs))"

definition back_ok :: "FileData list \<Rightarrow> bool \<Rightarrow> Occurrence list \<Rightarrow> bool" where
  "back_ok files ign occs \<longleftrightarrow>
     (\<forall>oc\<in>set occs. 0 < start oc)
     \<and> (\<forall>oc\<in>set occs. equal_line ign (flines files oc ! (start oc - 1))
                          (flines files (hd occs) ! (start (hd occs) - 1)))"

definition fwd_ok :: "FileData list \<Rightarrow> bool \<Rightarrow> Occurrence list \<Rightarrow> nat \<Rightarrow> bool" where
  "fwd_ok files ign occs len \<longleftrightarrow>
     (\<forall>oc\<in>set occs. start oc + len < length (flines files oc)
        \<and> equal_line ign (flines files oc ! (start oc + len))
                          (flines files (hd occs) ! (start (hd occs) + len)))"

definition shift_back :: "nat \<Rightarrow> Occurrence \<Rightarrow> Occurrence" where
  "shift_back a oc = oc\<lparr>start := start oc - a\<rparr>"

text \<open>The block \<open>build_maximal_block\<close> assembles from the extended group.\<close>

definition block_of :: "FileData list \<Rightarrow> nat \<Rightarrow> Occurrence list \<Rightarrow> DuplicateBlock" where
  "block_of files len occs =
     \<lparr>DuplicateBlock.lines = take len (drop (start (hd occs)) (flines files (hd occs))),
      hits = map (hit_of files len) occs\<rparr>"

text \<open>Files as the loader produces them: no line holds a line feed.\<close>

definition wf_files :: "FileData list \<Rightarrow> bool" where
  "wf_files files \<longleftrightarrow> (\<forall>f\<in>set files. \<forall>l\<in>set (FileData.lines f). LF \<notin> set l)"

text \<open>The seed group of a key.\<close>

definition bucket :: "FileData list \<Rightarrow> nat \<Rightarrow> bool \<Rightarrow> string \<Rightarrow> Occurrence list" where
  "bucket files min_lines ign k =
     filter (\<lambda>oc. seed_key files min_lines ign oc = k) (positions files min_lines)"

text \<open>
  A candidate block: the block of a seed group with at least two occurrences. The
  description holds all that the extension establishes.
\<close>

definition candidate :: "FileData list \<Rightarrow> nat \<Rightarrow> bool \<Rightarrow> DuplicateBlock \<Rightarrow> bool" where
  "candidate files min_lines ign b \<longleftrightarrow>
     (\<exists>k a L. 2 \<le> length (bucket files min_lines ign k)
        \<and> (\<forall>oc\<in>set (bucket files min_lines ign k). a \<le> start oc)
        \<and> a + min_lines \<le> L
        \<and> (\<forall>oc\<in>set (bucket files min_lines ign k). valid_occ files L (shift_back a oc))
        \<and> agree files ign L (map (shift_back a) (bucket files min_lines ign k))
        \<and> \<not> back_ok files ign (map (shift_back a) (bucket files min_lines ign k))
        \<and> \<not> fwd_ok files ign (map (shift_back a) (bucket files min_lines ign k)) L
        \<and> b = block_of files L (map (shift_back a) (bucket files min_lines ign k)))"

text \<open>The lines of a hit's range in its file.\<close>

definition hit_slice :: "(string \<Rightarrow> string list) \<Rightarrow> Hit \<Rightarrow> string list" where
  "hit_slice content h =
     take (end_line h + 1 - start_line h) (drop (start_line h - 1) (content (Hit.path h)))"

text \<open>
  A hit of a block of \<open>n\<close> lines lies in its file; a candidate block and an aggregate
  as the proofs need them; a file list whose lines are the loaded content of its paths.
\<close>

definition hit_in_range :: "(string \<Rightarrow> string list) \<Rightarrow> nat \<Rightarrow> Hit \<Rightarrow> bool" where
  "hit_in_range content n h \<longleftrightarrow>
     1 \<le> start_line h \<and> end_line h + 1 = start_line h + n
     \<and> end_line h \<le> length (content (Hit.path h))"

definition block_ok :: "(string \<Rightarrow> string list) \<Rightarrow> bool \<Rightarrow> DuplicateBlock \<Rightarrow> bool" where
  "block_ok content ign b \<longleftrightarrow>
     DuplicateBlock.lines b \<noteq> []
     \<and> (\<forall>l\<in>set (DuplicateBlock.lines b). LF \<notin> set l)
     \<and> DuplicateBlock.hits b \<noteq> []
     \<and> (\<forall>h\<in>set (DuplicateBlock.hits b).
           hit_in_range content (length (DuplicateBlock.lines b)) h)
     \<and> DuplicateBlock.lines b = hit_slice content (hd (DuplicateBlock.hits b))
     \<and> \<not> extendable_backward content ign (set (DuplicateBlock.hits b))
     \<and> \<not> extendable_forward content ign (set (DuplicateBlock.hits b))"

definition agg_ok :: "(string \<Rightarrow> string list) \<Rightarrow> bool \<Rightarrow> string \<Rightarrow> Agg \<Rightarrow> bool" where
  "agg_ok content ign k agg \<longleftrightarrow>
     k = join_nl (map (norm_line ign) (Agg.lines agg))
     \<and> Agg.lines agg \<noteq> []
     \<and> (\<forall>l\<in>set (Agg.lines agg). LF \<notin> set l)
     \<and> hit_keys agg = hit_key ` set (Agg.hits agg)
     \<and> distinct (Agg.hits agg)
     \<and> (\<forall>h\<in>set (Agg.hits agg). hit_in_range content (length (Agg.lines agg)) h)
     \<and> (\<exists>h\<in>set (Agg.hits agg). Agg.lines agg = hit_slice content h)
     \<and> \<not> extendable_backward content ign (set (Agg.hits agg))
     \<and> \<not> extendable_forward content ign (set (Agg.hits agg))"

definition consistent :: "FileData list \<Rightarrow> (string \<Rightarrow> string list) \<Rightarrow> bool" where
  "consistent files content \<longleftrightarrow> (\<forall>f\<in>set files. FileData.lines f = content (FileData.path f))"

text \<open>Every aggregate of the map is well formed under its key.\<close>

definition by_content_ok :: "(string \<Rightarrow> string list) \<Rightarrow> bool \<Rightarrow> Agg umap \<Rightarrow> bool" where
  "by_content_ok content ign bc \<longleftrightarrow> (\<forall>(k, agg)\<in>set bc. agg_ok content ign k agg)"

text \<open>What holds of every block of the final list.\<close>

definition final_ok :: "(string \<Rightarrow> string list) \<Rightarrow> bool \<Rightarrow> DuplicateBlock \<Rightarrow> bool" where
  "final_ok content ign b \<longleftrightarrow>
     2 \<le> length (DuplicateBlock.hits b)
     \<and> distinct (DuplicateBlock.hits b)
     \<and> DuplicateBlock.lines b \<noteq> []
     \<and> (\<forall>h\<in>set (DuplicateBlock.hits b). hit_in_range content (length (DuplicateBlock.lines b)) h)
     \<and> (\<exists>h\<in>set (DuplicateBlock.hits b). DuplicateBlock.lines b = hit_slice content h)
     \<and> \<not> extendable_backward content ign (set (DuplicateBlock.hits b))
     \<and> \<not> extendable_forward content ign (set (DuplicateBlock.hits b))"

text \<open>An occurrence moved forward by \<open>a\<close> lines.\<close>

definition shift_fwd :: "nat \<Rightarrow> Occurrence \<Rightarrow> Occurrence" where
  "shift_fwd a oc = oc\<lparr>start := start oc + a\<rparr>"

text \<open>The entry a candidate block leaves in \<open>by_content\<close>.\<close>

definition entry_of :: "bool \<Rightarrow> DuplicateBlock \<Rightarrow> string \<times> Agg" where
  "entry_of ign b = (content_key ign b, merge_block b empty_agg)"

text \<open>Every entry of the map is the entry of a candidate block, under distinct keys.\<close>

definition entries_exact :: "FileData list \<Rightarrow> nat \<Rightarrow> bool \<Rightarrow> Agg umap \<Rightarrow> bool" where
  "entries_exact files min_lines ign bc \<longleftrightarrow>
     distinct (map fst bc)
     \<and> (\<forall>e\<in>set bc. \<exists>b. candidate files min_lines ign b \<and> e = entry_of ign b)"

text \<open>The blocks of the groups the loop does not skip.\<close>

definition blocks_of :: "FileData list \<Rightarrow> nat \<Rightarrow> bool \<Rightarrow> Occurrence list umap \<Rightarrow> DuplicateBlock set" where
  "blocks_of files min_lines ign gs =
     {b. \<exists>(k, occs)\<in>set gs. 2 \<le> length occs
           \<and> build_maximal_block files occs min_lines ign = Some b}"

text \<open>Every aggregate records exactly the keys of its hits, each hit once.\<close>

definition hits_ok :: "Agg umap \<Rightarrow> bool" where
  "hits_ok bc = (\<forall>e\<in>set bc. hit_keys (snd e) = hit_key ` set (Agg.hits (snd e))
                    \<and> distinct (Agg.hits (snd e)))"

text \<open>
  The wildcards of a glob suffix, and the paths a suffix matches under the regex engine:
  a single star stands for a run without \<open>/\<close>, a question mark for one character other
  than \<open>/\<close>, a run of two or more stars for a run without line terminator, any other
  character for itself.
\<close>

datatype glob_tok = Star | DoubleStar | Quest | Lit char

function glob_tokens :: "string \<Rightarrow> glob_tok list" where
  "glob_tokens [] = []"
| "glob_tokens (c # cs) =
     (if c = CHR ''*'' then
        (if takeWhile (\<lambda>x. x = CHR ''*'') cs = [] then Star else DoubleStar)
          # glob_tokens (dropWhile (\<lambda>x. x = CHR ''*'') cs)
      else if c = CHR ''?'' then Quest # glob_tokens cs
      else Lit c # glob_tokens cs)"
  by pat_completeness auto
termination
  by (relation "measure length") (auto simp: le_imp_less_Suc length_dropWhile_le)

fun glob_sem :: "glob_tok list \<Rightarrow> string \<Rightarrow> bool" where
  "glob_sem [] s = (s = [])"
| "glob_sem (Lit c # ts) s = (\<exists>r. s = c # r \<and> glob_sem ts r)"
| "glob_sem (Quest # ts) s = (\<exists>c r. s = c # r \<and> c \<noteq> CHR ''/'' \<and> glob_sem ts r)"
| "glob_sem (Star # ts) s = (\<exists>u r. s = u @ r \<and> CHR ''/'' \<notin> set u \<and> glob_sem ts r)"
| "glob_sem (DoubleStar # ts) s =
     (\<exists>u r. s = u @ r \<and> LF \<notin> set u \<and> CR \<notin> set u \<and> glob_sem ts r)"

fun tok_item :: "glob_tok \<Rightarrow> rx_atom \<times> bool" where
  "tok_item Star = (RxNotSlash, True)"
| "tok_item DoubleStar = (RxAny, True)"
| "tok_item Quest = (RxNotSlash, False)"
| "tok_item (Lit c) = (RxChar c, False)"

section \<open>The backward loop extends only from positive offsets\<close>

lemma can_extend_backward_True:
  assumes "can_extend_backward files ign occs = Some True"
  shows "occs \<noteq> []" and "\<forall>oc\<in>set occs. 0 < start oc"
  using assms
  by (auto simp: can_extend_backward_def list_ex_iff split: if_splits list.splits)

section \<open>Sorting\<close>

lemma set_insort_by [simp]: "set (insort_by lt x xs) = insert x (set xs)"
  by (induction xs) auto

lemma mset_insort_by [simp]: "mset (insort_by lt x xs) = add_mset x (mset xs)"
  by (induction xs) auto

lemma mset_sort_by [simp]: "mset (sort_by lt xs) = mset xs"
  by (induction xs) (auto simp: sort_by_def)

lemma set_sort_by [simp]: "set (sort_by lt xs) = set xs"
  using mset_sort_by [of lt xs] by (metis set_mset_mset)

lemma length_sort_by [simp]: "length (sort_by lt xs) = length xs"
  using mset_sort_by [of lt xs] by (metis size_mset)

lemma sorted_insort_by:
  assumes asym: "\<And>a b. lt a b \<Longrightarrow> \<not> lt b a"
    and trans: "\<And>a b c. \<not> lt b a \<Longrightarrow> \<not> lt c b \<Longrightarrow> \<not> lt c a"
  shows "sorted_wrt (\<lambda>a b. \<not> lt b a) xs \<Longrightarrow> sorted_wrt (\<lambda>a b. \<not> lt b a) (insort_by lt x xs)"
proof (induction xs)
  case Nil
  then show ?case by simp
next
  case (Cons y ys)
  show ?case
  proof (cases "lt y x")
    case True
    with Cons asym show ?thesis by auto
  next
    case False
    with Cons trans show ?thesis by auto
  qed
qed

lemma sorted_sort_by:
  assumes asym: "\<And>a b. lt a b \<Longrightarrow> \<not> lt b a"
    and trans: "\<And>a b c. \<not> lt b a \<Longrightarrow> \<not> lt c b \<Longrightarrow> \<not> lt c a"
  shows "sorted_wrt (\<lambda>a b. \<not> lt b a) (sort_by lt xs)"
proof (induction xs)
  case Nil
  then show ?case by (simp add: sort_by_def)
next
  case (Cons x xs)
  have "sort_by lt (x # xs) = insort_by lt x (sort_by lt xs)"
    by (simp add: sort_by_def)
  with Cons sorted_insort_by [of lt, OF asym trans] show ?case by simp
qed

text \<open>
  The comparator of the block sort orders by the triple (line count descending, hit count
  descending, lines ascending): where the first lines differ, comparing them is comparing
  the line sequences.
\<close>

lemma block_less_iff:
  "block_less a b \<longleftrightarrow>
     length (DuplicateBlock.lines b) < length (DuplicateBlock.lines a)
     \<or> (length (DuplicateBlock.lines a) = length (DuplicateBlock.lines b)
        \<and> (length (DuplicateBlock.hits b) < length (DuplicateBlock.hits a)
           \<or> (length (DuplicateBlock.hits a) = length (DuplicateBlock.hits b)
              \<and> DuplicateBlock.lines a < DuplicateBlock.lines b)))"
proof -
  have "hd xs < hd ys \<longleftrightarrow> xs < ys" if "xs \<noteq> []" "ys \<noteq> []" "hd xs \<noteq> hd ys"
    for xs ys :: "string list"
    using that by (cases xs; cases ys) auto
  then show ?thesis
    unfolding block_less_def by auto
qed

lemma hit_less_iff:
  "hit_less a b \<longleftrightarrow>
     Hit.path a < Hit.path b
     \<or> (Hit.path a = Hit.path b
        \<and> (start_line a < start_line b
           \<or> (start_line a = start_line b \<and> end_line a < end_line b)))"
  unfolding hit_less_def by auto

lemma sorted_blocks: "sorted_wrt (\<lambda>a b. \<not> block_less b a) (sort_by block_less bs)"
  by (rule sorted_sort_by) (auto simp: block_less_iff)

lemma sorted_hits: "sorted_wrt (\<lambda>a b. \<not> hit_less b a) (sort_by hit_less hs)"
  by (rule sorted_sort_by) (auto simp: hit_less_iff)

section \<open>The order of the output\<close>

lemma hd_le_of_le: "xs \<le> ys \<Longrightarrow> xs \<noteq> [] \<Longrightarrow> ys \<noteq> [] \<Longrightarrow> hd xs \<le> hd (ys :: string list)"
  by (cases xs; cases ys) auto

lemma not_block_less: "\<not> block_less b a \<Longrightarrow> blocks_ordered a b"
  unfolding block_less_iff blocks_ordered_def
  using hd_le_of_le [of "DuplicateBlock.lines a" "DuplicateBlock.lines b"]
  by (auto simp: not_less)

lemma not_hit_less: "\<not> hit_less b a \<Longrightarrow> hits_ordered a b"
  unfolding hit_less_iff hits_ordered_def by (auto simp: not_less)

lemma blocks_ordered_emitted: "blocks_ordered (emitted a) (emitted b) = blocks_ordered a b"
  by (simp add: blocks_ordered_def emitted_def)

section \<open>Loaded lines hold no line feed\<close>

lemma getlines_no_lf: "LF \<notin> set cur \<Longrightarrow> \<forall>l\<in>set (getlines cur s). LF \<notin> set l"
proof (induction s arbitrary: cur)
  case Nil
  then show ?case by simp
next
  case (Cons a s)
  show ?case
  proof (cases "a = LF")
    case True
    with Cons.IH [of "[]"] Cons.prems show ?thesis by simp
  next
    case False
    then have "LF \<notin> set (cur @ [a])" using Cons.prems by auto
    from Cons.IH [OF this] False show ?thesis by simp
  qed
qed

lemma set_rstrip_cr: "set (rstrip_cr s) \<subseteq> set s"
  by (auto simp: rstrip_cr_def dest: in_set_butlastD)

lemma set_strip_utf8_bom: "set (strip_utf8_bom s) \<subseteq> set s"
  by (auto simp: strip_utf8_bom_def dest: in_set_dropD)

lemma set_strip_indent: "set (strip_indent s) \<subseteq> set s"
  by (auto simp: strip_indent_def dest: set_dropWhileD)

lemma normalize_lines_no_lf:
  "\<forall>l\<in>set ls. LF \<notin> set l \<Longrightarrow> l \<in> set (normalize_lines first ls) \<Longrightarrow> LF \<notin> set l"
proof (induction ls arbitrary: first)
  case Nil
  then show ?case by simp
next
  case (Cons a ls)
  from Cons.prems(2) consider
    (hd) "l = (if first then strip_utf8_bom (rstrip_cr a) else rstrip_cr a)"
    | (tl) "l \<in> set (normalize_lines False ls)"
    by (auto simp: Let_def)
  then show ?case
  proof cases
    case hd
    have "set l \<subseteq> set a"
      using set_rstrip_cr [of a] set_strip_utf8_bom [of "rstrip_cr a"] hd by (auto split: if_splits)
    with Cons.prems(1) show ?thesis by auto
  next
    case tl
    with Cons show ?thesis by simp
  qed
qed

lemma read_lines_normalized_no_lf:
  "l \<in> set (read_lines_normalized fs p) \<Longrightarrow> LF \<notin> set l"
  unfolding read_lines_normalized_def
  using normalize_lines_no_lf [of "getlines [] c" l True for c] getlines_no_lf [of "[]"]
  by (auto split: option.splits)

section \<open>Joined keys determine the lines\<close>

lemma append_sep_eq:
  assumes "c \<notin> set x" "c \<notin> set y" "x @ c # r = y @ c # r'"
  shows "x = y \<and> r = r'"
proof -
  have tw: "takeWhile (\<lambda>d. d \<noteq> c) (z @ c # t) = z" if "c \<notin> set z" for z t
    using that by (induction z) auto
  have "takeWhile (\<lambda>d. d \<noteq> c) (x @ c # r) = x" "takeWhile (\<lambda>d. d \<noteq> c) (y @ c # r') = y"
    using assms(1,2) by (simp_all add: tw)
  with assms(3) have "x = y" by simp
  with assms(3) show ?thesis by simp
qed

lemma join_nl_no_lf_single: "LF \<notin> set x \<Longrightarrow> join_nl (y # z # zs) \<noteq> x"
  by auto

lemma join_nl_inj:
  assumes "\<forall>x\<in>set xs. LF \<notin> set x" "\<forall>y\<in>set ys. LF \<notin> set y"
    and "xs \<noteq> []" "ys \<noteq> []" "join_nl xs = join_nl ys"
  shows "xs = ys"
  using assms
proof (induction xs arbitrary: ys rule: join_nl.induct)
  case 1
  then show ?case by simp
next
  case (2 x)
  then show ?case
    by (cases ys rule: join_nl.cases) auto
next
  case (3 x y zs)
  show ?case
  proof (cases ys rule: join_nl.cases)
    case 1
    with 3 show ?thesis by simp
  next
    case (2 u)
    with 3 show ?thesis by auto
  next
    case (3 u v ws)
    with "3.prems" have eq: "x @ LF # join_nl (y # zs) = u @ LF # join_nl (v # ws)"
      and nl: "LF \<notin> set x" "LF \<notin> set u"
      by auto
    from append_sep_eq [OF nl eq] have xu: "x = u" and rest: "join_nl (y # zs) = join_nl (v # ws)"
      by auto
    from "3.IH" [of "v # ws"] "3.prems" 3 rest have "y # zs = v # ws" by auto
    with xu 3 show ?thesis by simp
  qed
qed

section \<open>Hit keys determine the hit\<close>

lemma digit_val: "d < 10 \<Longrightarrow> of_char (''0123456789'' ! d) - 48 = (d::nat)"
proof -
  assume "d < 10"
  then have "d = 0 \<or> d = 1 \<or> d = 2 \<or> d = 3 \<or> d = 4 \<or> d = 5 \<or> d = 6 \<or> d = 7 \<or> d = 8 \<or> d = 9"
    by arith
  then show ?thesis by (elim disjE) simp_all
qed

lemma digit_no_lf: "d < 10 \<Longrightarrow> ''0123456789'' ! d \<noteq> LF"
proof -
  assume "d < 10"
  then have "d = 0 \<or> d = 1 \<or> d = 2 \<or> d = 3 \<or> d = 4 \<or> d = 5 \<or> d = 6 \<or> d = 7 \<or> d = 8 \<or> d = 9"
    by arith
  then show ?thesis by (elim disjE) simp_all
qed

lemma undec_dec_str: "undec (dec_str n) = n"
proof (induction n rule: dec_str.induct)
  case (1 n)
  show ?case
  proof (cases "n < 10")
    case True
    then show ?thesis by (subst dec_str.simps) (simp add: undec_def digit_val)
  next
    case False
    with 1 have ih: "undec (dec_str (n div 10)) = n div 10" by simp
    have "undec (dec_str n) = 10 * undec (dec_str (n div 10)) + n mod 10"
      using False by (subst dec_str.simps) (simp add: undec_def digit_val)
    with ih show ?thesis by simp
  qed
qed

lemma dec_str_inj: "dec_str a = dec_str b \<Longrightarrow> a = b"
  by (metis undec_dec_str)

lemma dec_str_no_lf: "LF \<notin> set (dec_str n)"
proof (induction n rule: dec_str.induct)
  case (1 n)
  show ?case
  proof (cases "n < 10")
    case True
    then show ?thesis using digit_no_lf [of n] by (subst dec_str.simps) simp
  next
    case False
    with 1 have "LF \<notin> set (dec_str (n div 10))" by simp
    then show ?thesis
      using False digit_no_lf [of "n mod 10"] by (subst dec_str.simps) simp
  qed
qed

lemma append_last_sep_eq:
  assumes "c \<notin> set r" "c \<notin> set r'" "x @ c # r = y @ c # r'"
  shows "x = y \<and> r = r'"
proof -
  from assms(3) have "rev r @ c # rev x = rev r' @ c # rev y"
    by (metis rev.simps(2) rev_append append_assoc append_Cons append_Nil)
  with append_sep_eq [of c "rev r" "rev r'" "rev x" "rev y"] assms(1,2)
  show ?thesis by simp
qed

lemma hit_key_inj: "hit_key h = hit_key g \<Longrightarrow> h = (g :: Hit)"
proof -
  assume eq: "hit_key h = hit_key g"
  then have "(Hit.path h @ LF # dec_str (start_line h)) @ LF # dec_str (end_line h)
           = (Hit.path g @ LF # dec_str (start_line g)) @ LF # dec_str (end_line g)"
    by (simp add: hit_key_def)
  from append_last_sep_eq [OF dec_str_no_lf dec_str_no_lf this]
  have a: "Hit.path h @ LF # dec_str (start_line h) = Hit.path g @ LF # dec_str (start_line g)"
    and e: "dec_str (end_line h) = dec_str (end_line g)" by auto
  from append_last_sep_eq [OF dec_str_no_lf dec_str_no_lf a]
  have "Hit.path h = Hit.path g" "dec_str (start_line h) = dec_str (start_line g)" by auto
  with e show ?thesis by (intro Hit.equality) (auto dest: dec_str_inj)
qed

section \<open>Unordered maps as association lists\<close>

lemma umap_upd_keys: "fst ` set (umap_upd d f k m) = insert k (fst ` set m)"
  by (induction d f k m rule: umap_upd.induct) auto

lemma umap_upd_distinct: "distinct (map fst m) \<Longrightarrow> distinct (map fst (umap_upd d f k m))"
proof (induction m)
  case Nil
  then show ?case by simp
next
  case (Cons e m)
  obtain k' v where e: "e = (k', v)" by (cases e)
  with Cons umap_upd_keys [of d f k m] show ?case by (auto simp: image_iff)
qed

lemma map_of_umap_upd:
  "map_of (umap_upd d f k m) =
     (map_of m)(k \<mapsto> f (case map_of m k of None \<Rightarrow> d | Some v \<Rightarrow> v))"
  by (induction m) (auto simp: fun_eq_iff)

lemma umap_upd_entry:
  assumes "(k', v') \<in> set (umap_upd d f k m)"
  shows "(k', v') \<in> set m
         \<or> (k' = k \<and> ((\<exists>v. (k, v) \<in> set m \<and> v' = f v) \<or> (k \<notin> fst ` set m \<and> v' = f d)))"
  using assms
proof (induction d f k m rule: umap_upd.induct)
  case (1 d f k)
  then show ?case by simp
next
  case (2 d f k k0 v0 m)
  show ?case
  proof (cases "k0 = k")
    case True
    with "2.prems" show ?thesis by auto
  next
    case False
    with "2.prems" have "(k', v') = (k0, v0) \<or> (k', v') \<in> set (umap_upd d f k m)" by auto
    then show ?thesis
    proof
      assume "(k', v') = (k0, v0)"
      then show ?thesis by auto
    next
      assume "(k', v') \<in> set (umap_upd d f k m)"
      from "2.IH" [OF False this] False show ?thesis by (auto simp: image_iff)
    qed
  qed
qed

lemma fold_concat: "fold f (concat xss) = fold (fold f) xss"
  by (induction xss) simp_all

section \<open>The seed map\<close>

lemma build_seeds_positions:
  "build_seeds files min_lines ign =
     fold (push_occ files min_lines ign) (positions files min_lines) []"
proof -
  have "fold (push_occ files min_lines ign) (positions files min_lines) =
        fold (\<lambda>idx. seed_file min_lines ign idx (files ! idx)) [0..<length files]"
  proof -
    have "(fold (push_occ files min_lines ign) \<circ>
            (\<lambda>idx. if length (FileData.lines (files ! idx)) < min_lines then []
                   else map (\<lambda>i. \<lparr>file_index = idx, start = i\<rparr>)
                          [0..<Suc (length (FileData.lines (files ! idx)) - min_lines)]))
          = (\<lambda>idx. seed_file min_lines ign idx (files ! idx))"
      by (auto simp: seed_file_def fold_map comp_def push_occ_def seed_key_def fun_eq_iff)
    then show ?thesis
      unfolding positions_def fold_concat fold_map by simp
  qed
  then show ?thesis by (simp add: build_seeds_def)
qed

lemma positions_iff:
  "oc \<in> set (positions files min_lines) \<longleftrightarrow>
     file_index oc < length files
     \<and> start oc + min_lines \<le> length (FileData.lines (files ! file_index oc))"
proof
  assume "oc \<in> set (positions files min_lines)"
  then show "file_index oc < length files
     \<and> start oc + min_lines \<le> length (FileData.lines (files ! file_index oc))"
    by (auto simp: positions_def split: if_splits)
next
  assume a: "file_index oc < length files
     \<and> start oc + min_lines \<le> length (FileData.lines (files ! file_index oc))"
  let ?n = "length (FileData.lines (files ! file_index oc))"
  have oc: "oc = \<lparr>file_index = file_index oc, start = start oc\<rparr>" by simp
  from a have "start oc \<in> set [0..<Suc (?n - min_lines)]" and "\<not> ?n < min_lines"
    by auto
  then have "\<lparr>file_index = file_index oc, start = start oc\<rparr>
               \<in> set (if ?n < min_lines then []
                else map (\<lambda>i. \<lparr>file_index = file_index oc, start = i\<rparr>)
                       [0..<Suc (?n - min_lines)])"
    by (simp del: upt_Suc)
  then have "oc \<in> set (if ?n < min_lines then []
                else map (\<lambda>i. \<lparr>file_index = file_index oc, start = i\<rparr>)
                       [0..<Suc (?n - min_lines)])"
    by (simp only: oc [symmetric])
  moreover from a have "file_index oc \<in> set [0..<length files]" by simp
  ultimately show "oc \<in> set (positions files min_lines)"
    unfolding positions_def set_concat set_map by blast
qed

lemma occ_pos_inj: "occ_pos a = occ_pos b \<Longrightarrow> a = b"
  by (simp add: occ_pos_def)

lemma sorted_positions_aux:
  "sorted_wrt (<) (is :: nat list) \<Longrightarrow>
   sorted_wrt (<) (concat (map (\<lambda>idx. map (Pair idx) (if c idx then [] else [0..<n idx])) is))"
proof (induction "is")
  case Nil
  then show ?case by simp
next
  case (Cons i "is")
  have "sorted_wrt (<) (map (Pair i) (if c i then [] else [0..<n i]))"
    by (simp add: sorted_wrt_map less_prod_def)
  with Cons show ?case
    by (auto simp: sorted_wrt_append sorted_wrt_map less_prod_def split: if_splits)
qed

lemma positions_sorted: "sorted_wrt (<) (map occ_pos (positions files min_lines))"
proof -
  have "map occ_pos (positions files min_lines) =
        concat (map (\<lambda>idx. map (Pair idx)
                  (if length (FileData.lines (files ! idx)) < min_lines then []
                   else [0..<Suc (length (FileData.lines (files ! idx)) - min_lines)]))
                [0..<length files])"
    by (simp add: positions_def map_concat comp_def occ_pos_def if_distrib cong: if_cong)
  then show ?thesis
    using sorted_positions_aux [of "[0..<length files]"] by simp
qed

lemma map_of_fold_push:
  "map_of (fold (\<lambda>x. umap_upd [] (\<lambda>v. v @ [x]) (kf x)) xs acc) k =
     (case map_of acc k of
        None \<Rightarrow> (if filter (\<lambda>x. kf x = k) xs = [] then None
                  else Some (filter (\<lambda>x. kf x = k) xs))
      | Some v \<Rightarrow> Some (v @ filter (\<lambda>x. kf x = k) xs))"
proof (induction xs arbitrary: acc)
  case Nil
  then show ?case by (simp split: option.splits)
next
  case (Cons x xs)
  show ?case
    by (simp add: Cons.IH map_of_umap_upd split: option.splits)
qed

lemma distinct_fold_push:
  "distinct (map fst acc) \<Longrightarrow>
   distinct (map fst (fold (\<lambda>x. umap_upd [] (\<lambda>v. v @ [x]) (kf x)) xs acc))"
  by (induction xs arbitrary: acc) (simp_all add: umap_upd_distinct)

lemma build_seeds_distinct: "distinct (map fst (build_seeds files min_lines ign))"
  unfolding build_seeds_positions push_occ_def
  by (rule distinct_fold_push) simp

lemma build_seeds_entry:
  "(k, occs) \<in> set (build_seeds files min_lines ign) \<longleftrightarrow>
     occs \<noteq> [] \<and> occs = filter (\<lambda>oc. seed_key files min_lines ign oc = k) (positions files min_lines)"
proof -
  have "(k, occs) \<in> set (build_seeds files min_lines ign) \<longleftrightarrow>
        map_of (build_seeds files min_lines ign) k = Some occs"
    using build_seeds_distinct by simp
  also have "\<dots> \<longleftrightarrow> occs \<noteq> []
      \<and> occs = filter (\<lambda>oc. seed_key files min_lines ign oc = k) (positions files min_lines)"
    unfolding build_seeds_positions push_occ_def map_of_fold_push by auto
  finally show ?thesis .
qed

section \<open>What the extension loops compute\<close>

lemma equal_line_norm: "equal_line ign a b \<longleftrightarrow> norm_line ign a = norm_line ign b"
  by (simp add: equal_line_def norm_line_def)

lemma join_lines_norm_nslice:
  "seed_key files min_lines ign oc = join_nl (nslice files ign min_lines oc)"
  by (simp add: seed_key_def join_lines_norm_def nslice_def flines_def norm_line_def [abs_def])

lemma all_prev_equal_eq:
  assumes "\<forall>oc\<in>set ocs. valid_occ files 0 oc \<and> 0 < start oc"
  shows "all_prev_equal files ign ref ocs =
           Some (\<forall>oc\<in>set ocs. equal_line ign (flines files oc ! (start oc - 1)) ref)"
  using assms
  by (induction ocs) (auto simp: line_at_def valid_occ_def flines_def)

lemma can_extend_backward_eq:
  assumes "occs \<noteq> []" "\<forall>oc\<in>set occs. valid_occ files 0 oc"
  shows "can_extend_backward files ign occs = Some (back_ok files ign occs)"
proof (cases "list_ex (\<lambda>oc. start oc = 0) occs")
  case True
  then show ?thesis
    by (auto simp: can_extend_backward_def back_ok_def list_ex_iff)
next
  case False
  then have pos: "\<forall>oc\<in>set occs. 0 < start oc" by (auto simp: list_ex_iff)
  from assms(1) obtain oc0 rest where occs: "occs = oc0 # rest" by (cases occs) auto
  from assms(2) pos occs
  have v0: "file_index oc0 < length files" "start oc0 - 1 < length (flines files oc0)"
    by (auto simp: valid_occ_def)
  have rest: "\<forall>oc\<in>set rest. valid_occ files 0 oc \<and> 0 < start oc"
    using assms(2) pos occs by auto
  show ?thesis
    using False v0 pos
    by (simp add: can_extend_backward_def occs line_at_def all_prev_equal_eq [OF rest]
          back_ok_def flines_def equal_line_norm)
qed

lemma nslice_step_back:
  assumes "valid_occ files len oc" "0 < start oc"
  shows "nslice files ign (Suc len) (step_back oc) =
           norm_line ign (flines files oc ! (start oc - 1)) # nslice files ign len oc"
proof -
  from assms have "start oc - 1 < length (flines files oc)" by (auto simp: valid_occ_def)
  then have "drop (start oc - 1) (flines files oc) =
             flines files oc ! (start oc - 1) # drop (Suc (start oc - 1)) (flines files oc)"
    by (simp add: Cons_nth_drop_Suc)
  with assms(2) show ?thesis
    by (simp add: nslice_def step_back_def flines_def)
qed

lemma nslice_Suc:
  assumes "start oc + len < length (flines files oc)"
  shows "nslice files ign (Suc len) oc =
           nslice files ign len oc @ [norm_line ign (flines files oc ! (start oc + len))]"
  using assms by (simp add: nslice_def take_Suc_conv_app_nth)

lemma shift_back_step: "shift_back a (step_back oc) = shift_back (Suc a) oc"
  by (simp add: shift_back_def step_back_def)

lemma shift_back_0 [simp]: "shift_back 0 oc = oc"
  by (simp add: shift_back_def)

lemma extend_backward_spec:
  assumes "occs \<noteq> []" "\<forall>oc\<in>set occs. valid_occ files len oc" "agree files ign len occs"
  shows "\<exists>a. (\<forall>oc\<in>set occs. a \<le> start oc)
           \<and> extend_backward files ign occs = Some (map (shift_back a) occs)
           \<and> (\<forall>oc\<in>set occs. valid_occ files (len + a) (shift_back a oc))
           \<and> agree files ign (len + a) (map (shift_back a) occs)
           \<and> \<not> back_ok files ign (map (shift_back a) occs)"
  using assms
proof (induction files ign occs arbitrary: len rule: extend_backward.induct)
  case (1 files ign occs)
  have v0: "\<forall>oc\<in>set occs. valid_occ files 0 oc"
    using "1.prems"(2) by (auto simp: valid_occ_def)
  note can = can_extend_backward_eq [OF "1.prems"(1) v0, of ign]
  show ?case
  proof (cases "back_ok files ign occs")
    case False
    with can have "extend_backward files ign occs = Some occs"
      by (subst extend_backward.simps) simp
    with False "1.prems" show ?thesis
      by (intro exI [of _ 0]) simp
  next
    case True
    then have pos: "\<forall>oc\<in>set occs. 0 < start oc" by (simp add: back_ok_def)
    let ?occs = "map step_back occs"
    have ne: "?occs \<noteq> []" using "1.prems"(1) by simp
    have valid: "\<forall>oc\<in>set ?occs. valid_occ files (Suc len) oc"
      using "1.prems"(2) pos by (auto simp: valid_occ_def step_back_def flines_def)
    have hd: "hd ?occs = step_back (hd occs)"
      using "1.prems"(1) by (simp add: hd_map)
    have hdin: "hd occs \<in> set occs" using "1.prems"(1) by simp
    have agree: "agree files ign (Suc len) ?occs"
      unfolding agree_def hd
    proof
      fix oc' assume "oc' \<in> set ?occs"
      then obtain oc where oc: "oc \<in> set occs" "oc' = step_back oc" by auto
      from oc(1) "1.prems"(2) pos hdin
      have "nslice files ign (Suc len) (step_back oc) =
              norm_line ign (flines files oc ! (start oc - 1)) # nslice files ign len oc"
        and "nslice files ign (Suc len) (step_back (hd occs)) =
              norm_line ign (flines files (hd occs) ! (start (hd occs) - 1))
                # nslice files ign len (hd occs)"
        by (simp_all add: nslice_step_back)
      moreover from True oc(1)
      have "norm_line ign (flines files oc ! (start oc - 1)) =
            norm_line ign (flines files (hd occs) ! (start (hd occs) - 1))"
        by (simp add: back_ok_def equal_line_norm)
      moreover from "1.prems"(3) oc(1)
      have "nslice files ign len oc = nslice files ign len (hd occs)"
        by (simp add: agree_def)
      ultimately show "nslice files ign (Suc len) oc' = nslice files ign (Suc len) (step_back (hd occs))"
        using oc(2) by simp
    qed
    from can True have can': "can_extend_backward files ign occs = Some True" by simp
    from "1.IH" [OF can' refl ne valid agree] obtain a where
      a: "\<forall>oc\<in>set ?occs. a \<le> start oc"
         "extend_backward files ign ?occs = Some (map (shift_back a) ?occs)"
         "\<forall>oc\<in>set ?occs. valid_occ files (Suc len + a) (shift_back a oc)"
         "agree files ign (Suc len + a) (map (shift_back a) ?occs)"
         "\<not> back_ok files ign (map (shift_back a) ?occs)"
      by blast
    have maps: "map (shift_back a) ?occs = map (shift_back (Suc a)) occs"
      by (simp add: shift_back_step)
    have "extend_backward files ign occs = extend_backward files ign ?occs"
      using can True by (subst extend_backward.simps) simp
    moreover have "\<forall>oc\<in>set occs. Suc a \<le> start oc"
    proof
      fix oc assume "oc \<in> set occs"
      with a(1) pos have "a \<le> start oc - 1" "0 < start oc" by (auto simp: step_back_def)
      then show "Suc a \<le> start oc" by arith
    qed
    moreover have "\<forall>oc\<in>set occs. valid_occ files (len + Suc a) (shift_back (Suc a) oc)"
      using a(3) by (simp add: shift_back_step)
    ultimately show ?thesis
      using a(2,4,5) unfolding maps
      by (intro exI [of _ "Suc a"]) simp
  qed
qed

lemma all_next_equal_eq:
  assumes "\<forall>oc\<in>set ocs. file_index oc < length files"
  shows "all_next_equal files ign ref len ocs =
           Some (\<forall>oc\<in>set ocs. start oc + len < length (flines files oc)
                    \<and> equal_line ign (flines files oc ! (start oc + len)) ref)"
  using assms
  by (induction ocs) (auto simp: Let_def flines_def)

lemma can_extend_forward_eq:
  assumes "occs \<noteq> []" "\<forall>oc\<in>set occs. file_index oc < length files"
  shows "can_extend_forward files ign occs len = Some (fwd_ok files ign occs len)"
proof -
  from assms(1) obtain oc0 rest where occs: "occs = oc0 # rest" by (cases occs) auto
  have rest: "\<forall>oc\<in>set rest. file_index oc < length files" using assms(2) occs by simp
  show ?thesis
    using assms(2)
    by (auto simp: can_extend_forward_def occs Let_def all_next_equal_eq [OF rest] fwd_ok_def
          flines_def equal_line_norm)
qed

lemma extend_forward_spec:
  assumes "occs \<noteq> []" "\<forall>oc\<in>set occs. valid_occ files len oc" "agree files ign len occs"
  shows "\<exists>L\<ge>len. extend_forward files ign occs len = Some L
           \<and> (\<forall>oc\<in>set occs. valid_occ files L oc)
           \<and> agree files ign L occs
           \<and> \<not> fwd_ok files ign occs L"
  using assms
proof (induction files ign occs len rule: extend_forward.induct)
  case (1 files ign occs len)
  have fi: "\<forall>oc\<in>set occs. file_index oc < length files"
    using "1.prems"(2) by (simp add: valid_occ_def)
  note can = can_extend_forward_eq [OF "1.prems"(1) fi, of ign len]
  show ?case
  proof (cases "fwd_ok files ign occs len")
    case False
    with can have "extend_forward files ign occs len = Some len"
      by (subst extend_forward.simps) simp
    with False "1.prems" show ?thesis by auto
  next
    case True
    have hdin: "hd occs \<in> set occs" using "1.prems"(1) by simp
    have valid: "\<forall>oc\<in>set occs. valid_occ files (len + 1) oc"
      using True fi by (auto simp: fwd_ok_def valid_occ_def)
    have agree: "agree files ign (len + 1) occs"
      unfolding agree_def
    proof
      fix oc assume oc: "oc \<in> set occs"
      with True hdin have
        "nslice files ign (Suc len) oc =
           nslice files ign len oc @ [norm_line ign (flines files oc ! (start oc + len))]"
        "nslice files ign (Suc len) (hd occs) =
           nslice files ign len (hd occs)
             @ [norm_line ign (flines files (hd occs) ! (start (hd occs) + len))]"
        by (simp_all add: fwd_ok_def nslice_Suc)
      moreover from True oc have "norm_line ign (flines files oc ! (start oc + len)) =
          norm_line ign (flines files (hd occs) ! (start (hd occs) + len))"
        by (simp add: fwd_ok_def equal_line_norm)
      moreover from "1.prems"(3) oc
      have "nslice files ign len oc = nslice files ign len (hd occs)"
        by (simp add: agree_def)
      ultimately show "nslice files ign (len + 1) oc = nslice files ign (len + 1) (hd occs)"
        by simp
    qed
    from can True have can': "can_extend_forward files ign occs len = Some True" by simp
    from "1.IH" [OF can' refl "1.prems"(1) valid agree] obtain L where
      L: "len + 1 \<le> L" "extend_forward files ign occs (len + 1) = Some L"
         "\<forall>oc\<in>set occs. valid_occ files L oc" "agree files ign L occs"
         "\<not> fwd_ok files ign occs L"
      by blast
    have "extend_forward files ign occs len = extend_forward files ign occs (len + 1)"
      using can True by (subst extend_forward.simps) simp
    with L show ?thesis
      by (intro exI [of _ L]) simp
  qed
qed

lemma length_nslice: "valid_occ files len oc \<Longrightarrow> length (nslice files ign len oc) = len"
  by (auto simp: nslice_def valid_occ_def min_def)

lemma nslice_take: "len \<le> K \<Longrightarrow> nslice files ign len oc = take len (nslice files ign K oc)"
  by (simp add: nslice_def take_map min_def)

lemma nslice_nth:
  "valid_occ files K oc \<Longrightarrow> len < K \<Longrightarrow>
     nslice files ign K oc ! len = norm_line ign (flines files oc ! (start oc + len))"
proof -
  assume a: "valid_occ files K oc" "len < K"
  then have "len < length (take K (drop (start oc) (flines files oc)))"
    by (auto simp: valid_occ_def min_def)
  then have "nslice files ign K oc ! len =
             norm_line ign (take K (drop (start oc) (flines files oc)) ! len)"
    unfolding nslice_def by (rule nth_map)
  with a show ?thesis by (simp add: valid_occ_def)
qed

lemma agree_mono: "agree files ign K occs \<Longrightarrow> len \<le> K \<Longrightarrow> agree files ign len occs"
  by (simp add: agree_def nslice_take [of len K])

lemma valid_occ_mono: "valid_occ files K oc \<Longrightarrow> len \<le> K \<Longrightarrow> valid_occ files len oc"
  by (simp add: valid_occ_def)

lemma agree_fwd_ok:
  assumes "occs \<noteq> []" "\<forall>oc\<in>set occs. valid_occ files K oc" "agree files ign K occs" "len < K"
  shows "fwd_ok files ign occs len"
  unfolding fwd_ok_def
proof
  fix oc assume oc: "oc \<in> set occs"
  have hdin: "hd occs \<in> set occs" using assms(1) by simp
  from assms(3) oc have "nslice files ign K oc ! len = nslice files ign K (hd occs) ! len"
    by (simp add: agree_def)
  with assms(2,4) oc hdin
  have "norm_line ign (flines files oc ! (start oc + len)) =
        norm_line ign (flines files (hd occs) ! (start (hd occs) + len))"
    by (simp add: nslice_nth)
  moreover from assms(2,4) oc have "start oc + len < length (flines files oc)"
    by (auto simp: valid_occ_def)
  ultimately show "start oc + len < length (flines files oc)
        \<and> equal_line ign (flines files oc ! (start oc + len))
                          (flines files (hd occs) ! (start (hd occs) + len))"
    by (simp add: equal_line_norm)
qed

lemma build_maximal_block_eq:
  assumes "extend_backward files ign occs = Some occs'"
    and "extend_forward files ign occs' seed_len = Some L"
    and "occs' \<noteq> []" "\<forall>oc\<in>set occs'. valid_occ files L oc"
  shows "build_maximal_block files occs seed_len ign = Some (block_of files L occs')"
  using assms
  by (cases occs')
     (auto simp: build_maximal_block_def block_of_def valid_occ_def flines_def list_all_iff)

lemma build_maximal_block_spec:
  assumes "occs \<noteq> []" "\<forall>oc\<in>set occs. valid_occ files seed_len oc"
    and "agree files ign seed_len occs"
  shows "\<exists>a L. (\<forall>oc\<in>set occs. a \<le> start oc) \<and> a + seed_len \<le> L
           \<and> (\<forall>oc\<in>set occs. valid_occ files L (shift_back a oc))
           \<and> agree files ign L (map (shift_back a) occs)
           \<and> \<not> back_ok files ign (map (shift_back a) occs)
           \<and> \<not> fwd_ok files ign (map (shift_back a) occs) L
           \<and> build_maximal_block files occs seed_len ign =
                 Some (block_of files L (map (shift_back a) occs))"
proof -
  from extend_backward_spec [OF assms] obtain a where
    a: "\<forall>oc\<in>set occs. a \<le> start oc"
       "extend_backward files ign occs = Some (map (shift_back a) occs)"
       "\<forall>oc\<in>set occs. valid_occ files (seed_len + a) (shift_back a oc)"
       "agree files ign (seed_len + a) (map (shift_back a) occs)"
       "\<not> back_ok files ign (map (shift_back a) occs)"
    by blast
  let ?occs = "map (shift_back a) occs"
  have ne: "?occs \<noteq> []" using assms(1) by simp
  have valid_a: "\<forall>oc\<in>set ?occs. valid_occ files (seed_len + a) oc" using a(3) by simp
  have valid_m: "\<forall>oc\<in>set ?occs. valid_occ files seed_len oc"
    using valid_a by (auto intro: valid_occ_mono)
  have agree_m: "agree files ign seed_len ?occs"
    using a(4) by (rule agree_mono) simp
  from extend_forward_spec [OF ne valid_m agree_m] obtain L where
    L: "seed_len \<le> L" "extend_forward files ign ?occs seed_len = Some L"
       "\<forall>oc\<in>set ?occs. valid_occ files L oc" "agree files ign L ?occs"
       "\<not> fwd_ok files ign ?occs L"
    by blast
  have "\<not> L < seed_len + a"
    using agree_fwd_ok [OF ne valid_a a(4)] L(5) by blast
  then have len: "a + seed_len \<le> L" by simp
  have "build_maximal_block files occs seed_len ign = Some (block_of files L ?occs)"
    using a(2) L(2) ne L(3) by (rule build_maximal_block_eq)
  with a(1,5) len L(3,4,5) show ?thesis by auto
qed

lemma load_files_wf: "wf_files (load_files fs files_paths)"
  by (auto simp: wf_files_def load_files_def dest: read_lines_normalized_no_lf)

lemma norm_line_no_lf: "LF \<notin> set l \<Longrightarrow> LF \<notin> set (norm_line ign l)"
  using set_strip_indent [of l] by (auto simp: norm_line_def)

lemma nslice_no_lf:
  assumes "wf_files files" "file_index oc < length files"
  shows "\<forall>x\<in>set (nslice files ign len oc). LF \<notin> set x"
proof -
  have nl: "\<forall>l\<in>set (flines files oc). LF \<notin> set l"
    using assms by (auto simp: wf_files_def flines_def)
  show ?thesis
  proof
    fix x assume "x \<in> set (nslice files ign len oc)"
    then obtain l where "l \<in> set (flines files oc)" "x = norm_line ign l"
      by (auto simp: nslice_def dest!: in_set_takeD in_set_dropD)
    with nl show "LF \<notin> set x" by (simp add: norm_line_no_lf)
  qed
qed

text \<open>Occurrences with the same seed key show the same lines, and conversely.\<close>

lemma seed_key_eq_iff:
  assumes "wf_files files" "0 < min_lines"
    and "valid_occ files min_lines oc" "valid_occ files min_lines oc'"
  shows "seed_key files min_lines ign oc = seed_key files min_lines ign oc' \<longleftrightarrow>
           nslice files ign min_lines oc = nslice files ign min_lines oc'"
proof
  assume "seed_key files min_lines ign oc = seed_key files min_lines ign oc'"
  then have eq: "join_nl (nslice files ign min_lines oc) = join_nl (nslice files ign min_lines oc')"
    by (simp add: join_lines_norm_nslice)
  have ne: "nslice files ign min_lines oc \<noteq> []" "nslice files ign min_lines oc' \<noteq> []"
    using assms(2) length_nslice [OF assms(3), of ign] length_nslice [OF assms(4), of ign]
    by auto
  have nl: "\<forall>x\<in>set (nslice files ign min_lines oc). LF \<notin> set x"
    "\<forall>x\<in>set (nslice files ign min_lines oc'). LF \<notin> set x"
    using nslice_no_lf [OF assms(1), of oc ign min_lines]
      nslice_no_lf [OF assms(1), of oc' ign min_lines] assms(3,4)
    by (simp_all add: valid_occ_def)
  from join_nl_inj [OF nl ne eq]
  show "nslice files ign min_lines oc = nslice files ign min_lines oc'" .
next
  assume "nslice files ign min_lines oc = nslice files ign min_lines oc'"
  then show "seed_key files min_lines ign oc = seed_key files min_lines ign oc'"
    by (simp add: join_lines_norm_nslice)
qed

lemma bucket_iff:
  "oc \<in> set (bucket files min_lines ign k) \<longleftrightarrow>
     valid_occ files min_lines oc \<and> seed_key files min_lines ign oc = k"
  by (auto simp: bucket_def positions_iff valid_occ_def flines_def)

lemma bucket_agree:
  assumes "wf_files files" "0 < min_lines" "bucket files min_lines ign k \<noteq> []"
  shows "agree files ign min_lines (bucket files min_lines ign k)"
  unfolding agree_def
proof
  fix oc assume oc: "oc \<in> set (bucket files min_lines ign k)"
  have "hd (bucket files min_lines ign k) \<in> set (bucket files min_lines ign k)"
    using assms(3) by simp
  with oc have "valid_occ files min_lines oc"
      "valid_occ files min_lines (hd (bucket files min_lines ign k))"
      "seed_key files min_lines ign oc =
         seed_key files min_lines ign (hd (bucket files min_lines ign k))"
    by (simp_all add: bucket_iff)
  with seed_key_eq_iff [OF assms(1,2)]
  show "nslice files ign min_lines oc =
          nslice files ign min_lines (hd (bucket files min_lines ign k))"
    by blast
qed

lemma seed_group_candidate:
  assumes "wf_files files" "0 < min_lines"
    and "(k, occs) \<in> set (build_seeds files min_lines ign)" "2 \<le> length occs"
  shows "\<exists>b. build_maximal_block files occs min_lines ign = Some b
           \<and> candidate files min_lines ign b"
proof -
  from assms(3) have occs: "occs = bucket files min_lines ign k" and ne: "occs \<noteq> []"
    by (auto simp: build_seeds_entry bucket_def)
  have valid: "\<forall>oc\<in>set occs. valid_occ files min_lines oc"
    by (simp add: occs bucket_iff)
  have agree: "agree files ign min_lines occs"
    using bucket_agree [OF assms(1,2)] ne occs by simp
  from build_maximal_block_spec [OF ne valid agree] assms(4)
  show ?thesis
    unfolding candidate_def occs by blast
qed

section \<open>Blocks and aggregates in terms of the files\<close>

lemma extendable_backward_mono:
  "H \<subseteq> H' \<Longrightarrow> extendable_backward content ign H' \<Longrightarrow> extendable_backward content ign H"
  unfolding extendable_backward_def by blast

lemma extendable_forward_mono:
  "H \<subseteq> H' \<Longrightarrow> extendable_forward content ign H' \<Longrightarrow> extendable_forward content ign H"
  unfolding extendable_forward_def by blast

lemma load_files_consistent: "consistent (load_files fs files_paths) (read_lines_normalized fs)"
  by (auto simp: consistent_def load_files_def)

lemma content_key_eq: "content_key ign b = join_nl (map (norm_line ign) (DuplicateBlock.lines b))"
  by (simp add: content_key_def join_lines_norm_def norm_line_def [abs_def])

lemma candidate_block_ok:
  assumes cand: "candidate files min_lines ign b" and wf: "wf_files files"
    and m: "0 < min_lines" and cons: "consistent files content"
  shows "block_ok content ign b"
proof -
  from cand obtain k a L where
    len2: "2 \<le> length (bucket files min_lines ign k)"
    and aL: "a + min_lines \<le> L"
    and valid: "\<forall>oc\<in>set (bucket files min_lines ign k). valid_occ files L (shift_back a oc)"
    and nb: "\<not> back_ok files ign (map (shift_back a) (bucket files min_lines ign k))"
    and nf: "\<not> fwd_ok files ign (map (shift_back a) (bucket files min_lines ign k)) L"
    and b: "b = block_of files L (map (shift_back a) (bucket files min_lines ign k))"
    unfolding candidate_def by blast
  define occs where "occs = map (shift_back a) (bucket files min_lines ign k)"
  have ne: "occs \<noteq> []" using len2 by (auto simp: occs_def)
  have valid': "\<forall>oc\<in>set occs. valid_occ files L oc" using valid by (simp add: occs_def)
  have hdin: "hd occs \<in> set occs" using ne by simp
  have L: "0 < L" using aL m by simp
  have fl: "flines files oc = content (Hit.path (hit_of files L oc))" if "oc \<in> set occs" for oc
    using that valid' cons by (auto simp: valid_occ_def consistent_def flines_def hit_of_def)
  have lines: "DuplicateBlock.lines b = take L (drop (start (hd occs)) (flines files (hd occs)))"
    and hits: "DuplicateBlock.hits b = map (hit_of files L) occs"
    by (simp_all add: b block_of_def occs_def)
  have len: "length (DuplicateBlock.lines b) = L"
    using valid' hdin by (auto simp: lines valid_occ_def min_def)
  have "DuplicateBlock.lines b \<noteq> []" using len L by auto
  moreover have "\<forall>l\<in>set (DuplicateBlock.lines b). LF \<notin> set l"
  proof
    fix l assume "l \<in> set (DuplicateBlock.lines b)"
    then have "l \<in> set (flines files (hd occs))"
      unfolding lines by (auto dest!: in_set_takeD in_set_dropD)
    moreover have "file_index (hd occs) < length files"
      using valid' hdin by (auto simp: valid_occ_def)
    ultimately show "LF \<notin> set l"
      using wf by (auto simp: wf_files_def flines_def)
  qed
  moreover have "DuplicateBlock.hits b \<noteq> []" using ne by (simp add: hits)
  moreover have "\<forall>h\<in>set (DuplicateBlock.hits b). hit_in_range content (length (DuplicateBlock.lines b)) h"
  proof
    fix h assume "h \<in> set (DuplicateBlock.hits b)"
    then obtain oc where oc: "oc \<in> set occs" "h = hit_of files L oc" by (auto simp: hits)
    with valid' fl [OF oc(1)] show "hit_in_range content (length (DuplicateBlock.lines b)) h"
      by (auto simp: hit_in_range_def len valid_occ_def hit_of_def)
  qed
  moreover have "DuplicateBlock.lines b = hit_slice content (hd (DuplicateBlock.hits b))"
  proof -
    have "hd (DuplicateBlock.hits b) = hit_of files L (hd occs)"
      using ne by (simp add: hits hd_map)
    then show ?thesis
      using fl [OF hdin] by (simp add: hit_slice_def lines hit_of_def)
  qed
  moreover have "\<not> extendable_backward content ign (set (DuplicateBlock.hits b))"
  proof
    assume ext: "extendable_backward content ign (set (DuplicateBlock.hits b))"
    have "back_ok files ign occs"
      unfolding back_ok_def
    proof (intro conjI ballI)
      fix oc assume oc: "oc \<in> set occs"
      then have h: "hit_of files L oc \<in> set (DuplicateBlock.hits b)"
        and g: "hit_of files L (hd occs) \<in> set (DuplicateBlock.hits b)"
        using hdin by (auto simp: hits)
      from ext h show "0 < start oc"
        by (auto simp: extendable_backward_def hit_of_def)
      from ext h g have "equal_line ign
          (content (Hit.path (hit_of files L oc)) ! (start_line (hit_of files L oc) - 2))
          (content (Hit.path (hit_of files L (hd occs))) ! (start_line (hit_of files L (hd occs)) - 2))"
        unfolding extendable_backward_def by blast
      then show "equal_line ign (flines files oc ! (start oc - 1))
                   (flines files (hd occs) ! (start (hd occs) - 1))"
        unfolding fl [OF oc] fl [OF hdin] by (simp add: hit_of_def)
    qed
    with nb show False by (simp add: occs_def)
  qed
  moreover have "\<not> extendable_forward content ign (set (DuplicateBlock.hits b))"
  proof
    assume ext: "extendable_forward content ign (set (DuplicateBlock.hits b))"
    have "fwd_ok files ign occs L"
      unfolding fwd_ok_def
    proof (intro conjI ballI)
      fix oc assume oc: "oc \<in> set occs"
      then have h: "hit_of files L oc \<in> set (DuplicateBlock.hits b)"
        and g: "hit_of files L (hd occs) \<in> set (DuplicateBlock.hits b)"
        using hdin by (auto simp: hits)
      from ext h have "end_line (hit_of files L oc) < length (content (Hit.path (hit_of files L oc)))"
        unfolding extendable_forward_def by blast
      then show "start oc + L < length (flines files oc)"
        unfolding fl [OF oc] by (simp add: hit_of_def)
      from ext h g have "equal_line ign
          (content (Hit.path (hit_of files L oc)) ! end_line (hit_of files L oc))
          (content (Hit.path (hit_of files L (hd occs))) ! end_line (hit_of files L (hd occs)))"
        unfolding extendable_forward_def by blast
      then show "equal_line ign (flines files oc ! (start oc + L))
                   (flines files (hd occs) ! (start (hd occs) + L))"
        unfolding fl [OF oc] fl [OF hdin] by (simp add: hit_of_def)
    qed
    with nf show False by (simp add: occs_def)
  qed
  ultimately show ?thesis unfolding block_ok_def by blast
qed

section \<open>Merging hits\<close>

lemma add_hits_lines [simp]: "Agg.lines (add_hits hs agg) = Agg.lines agg"
  by (induction hs arbitrary: agg) simp_all

lemma add_hits_spec:
  assumes "hit_keys agg = hit_key ` set (Agg.hits agg)" "distinct (Agg.hits agg)"
  shows "hit_keys (add_hits hs agg) = hit_key ` set (Agg.hits (add_hits hs agg))
         \<and> distinct (Agg.hits (add_hits hs agg))
         \<and> set (Agg.hits (add_hits hs agg)) = set (Agg.hits agg) \<union> set hs"
  using assms
proof (induction hs arbitrary: agg)
  case Nil
  then show ?case by simp
next
  case (Cons h hs)
  show ?case
  proof (cases "hit_key h \<in> hit_keys agg")
    case True
    with Cons.prems(1) have "h \<in> set (Agg.hits agg)"
      by (auto dest: hit_key_inj)
    with True Cons.IH [OF Cons.prems] show ?thesis by auto
  next
    case False
    let ?agg = "agg\<lparr>hit_keys := insert (hit_key h) (hit_keys agg), hits := Agg.hits agg @ [h]\<rparr>"
    from False Cons.prems have "h \<notin> set (Agg.hits agg)" by auto
    with Cons.prems have "hit_keys ?agg = hit_key ` set (Agg.hits ?agg)" "distinct (Agg.hits ?agg)"
      by auto
    from Cons.IH [OF this] False show ?thesis by auto
  qed
qed

lemma add_hits_same:
  "hit_key ` set hs \<subseteq> hit_keys agg \<Longrightarrow> add_hits hs agg = agg"
  by (induction hs arbitrary: agg) auto

section \<open>The aggregation loop keeps every aggregate well formed\<close>

lemma merge_block_empty_eq:
  "merge_block b empty_agg =
     add_hits (DuplicateBlock.hits b)
       \<lparr>Agg.lines = DuplicateBlock.lines b, hit_keys = {}, hits = []\<rparr>"
  by (simp add: merge_block_def empty_agg_def)

lemma merge_block_empty_ok:
  assumes "block_ok content ign b"
  shows "agg_ok content ign (content_key ign b) (merge_block b empty_agg)"
proof -
  let ?a0 = "\<lparr>Agg.lines = DuplicateBlock.lines b, hit_keys = {}, hits = []\<rparr>"
  have "hit_keys ?a0 = hit_key ` set (Agg.hits ?a0)" "distinct (Agg.hits ?a0)" by simp_all
  from add_hits_spec [OF this, of "DuplicateBlock.hits b"]
  have k: "hit_keys (merge_block b empty_agg) = hit_key ` set (Agg.hits (merge_block b empty_agg))"
    and d: "distinct (Agg.hits (merge_block b empty_agg))"
    and s: "set (Agg.hits (merge_block b empty_agg)) = set (DuplicateBlock.hits b)"
    by (simp_all add: merge_block_empty_eq)
  have l: "Agg.lines (merge_block b empty_agg) = DuplicateBlock.lines b"
    by (simp add: merge_block_empty_eq)
  from assms have "hd (DuplicateBlock.hits b) \<in> set (DuplicateBlock.hits b)"
    by (simp add: block_ok_def)
  with assms show ?thesis
    unfolding agg_ok_def block_ok_def k l s
    using d by (auto simp: content_key_eq)
qed

lemma map_norm_no_lf:
  "\<forall>l\<in>set ls. LF \<notin> set l \<Longrightarrow> \<forall>x\<in>set (map (norm_line ign) ls). LF \<notin> set x"
  using norm_line_no_lf by auto

lemma merge_block_ok:
  assumes b: "block_ok content ign b" and a: "agg_ok content ign (content_key ign b) agg"
  shows "agg_ok content ign (content_key ign b) (merge_block b agg)"
proof -
  from a have ne: "Agg.lines agg \<noteq> []" and keys: "hit_keys agg = hit_key ` set (Agg.hits agg)"
    and dist: "distinct (Agg.hits agg)"
    by (simp_all add: agg_ok_def)
  have eq: "merge_block b agg = add_hits (DuplicateBlock.hits b) agg"
    using ne by (simp add: merge_block_def)
  from add_hits_spec [OF keys dist, of "DuplicateBlock.hits b"]
  have k: "hit_keys (merge_block b agg) = hit_key ` set (Agg.hits (merge_block b agg))"
    and d: "distinct (Agg.hits (merge_block b agg))"
    and s: "set (Agg.hits (merge_block b agg)) = set (Agg.hits agg) \<union> set (DuplicateBlock.hits b)"
    by (simp_all add: eq)
  have l: "Agg.lines (merge_block b agg) = Agg.lines agg" by (simp add: eq)
  have "map (norm_line ign) (Agg.lines agg) = map (norm_line ign) (DuplicateBlock.lines b)"
  proof (rule join_nl_inj)
    show "\<forall>x\<in>set (map (norm_line ign) (Agg.lines agg)). LF \<notin> set x"
      using a unfolding agg_ok_def by (intro map_norm_no_lf) blast
    show "\<forall>y\<in>set (map (norm_line ign) (DuplicateBlock.lines b)). LF \<notin> set y"
      using b unfolding block_ok_def by (intro map_norm_no_lf) blast
    show "map (norm_line ign) (Agg.lines agg) \<noteq> []" using ne by simp
    have "DuplicateBlock.lines b \<noteq> []" using b unfolding block_ok_def by blast
    then show "map (norm_line ign) (DuplicateBlock.lines b) \<noteq> []" by simp
    show "join_nl (map (norm_line ign) (Agg.lines agg)) =
          join_nl (map (norm_line ign) (DuplicateBlock.lines b))"
      using a by (simp add: agg_ok_def content_key_eq)
  qed
  then have len: "length (Agg.lines agg) = length (DuplicateBlock.lines b)"
    by (metis length_map)
  have range: "\<forall>h\<in>set (Agg.hits (merge_block b agg)). hit_in_range content (length (Agg.lines agg)) h"
    using a b unfolding s by (auto simp: agg_ok_def block_ok_def len)
  have slice: "\<exists>h\<in>set (Agg.hits (merge_block b agg)). Agg.lines agg = hit_slice content h"
    using a unfolding s by (auto simp: agg_ok_def)
  have "set (Agg.hits agg) \<subseteq> set (Agg.hits (merge_block b agg))" unfolding s by simp
  then have ext: "\<not> extendable_backward content ign (set (Agg.hits (merge_block b agg)))"
    "\<not> extendable_forward content ign (set (Agg.hits (merge_block b agg)))"
    using a extendable_backward_mono extendable_forward_mono
    by (auto simp: agg_ok_def)
  from a k d range slice ext show ?thesis
    unfolding agg_ok_def l by simp
qed

lemma by_content_ok_upd:
  assumes "by_content_ok content ign bc" "block_ok content ign b"
  shows "by_content_ok content ign (umap_upd empty_agg (merge_block b) (content_key ign b) bc)"
  unfolding by_content_ok_def
proof (clarify)
  fix k agg
  assume "(k, agg) \<in> set (umap_upd empty_agg (merge_block b) (content_key ign b) bc)"
  from umap_upd_entry [OF this] assms merge_block_ok [OF assms(2)] merge_block_empty_ok [OF assms(2)]
  show "agg_ok content ign k agg"
    by (auto simp: by_content_ok_def)
qed

text \<open>
  The loop over the seed groups returns when every group of two or more occurrences
  extends to a block, and it keeps every property that merging such a block keeps.
\<close>

lemma build_groups_inv:
  assumes "\<forall>(k, occs)\<in>set gs. 2 \<le> length occs \<longrightarrow>
             (\<exists>b. build_maximal_block files occs min_lines ign = Some b \<and> Q b)"
    and "\<And>bc b. P bc \<Longrightarrow> Q b \<Longrightarrow> P (umap_upd empty_agg (merge_block b) (content_key ign b) bc)"
    and "P bc0"
  shows "\<exists>bc. build_groups files min_lines ign gs bc0 = Some bc \<and> P bc"
  using assms(1,3)
proof (induction gs arbitrary: bc0)
  case Nil
  then show ?case by simp
next
  case (Cons g gs)
  obtain k occs where g: "g = (k, occs)" by (cases g)
  show ?case
  proof (cases "length occs < 2")
    case True
    with Cons g show ?thesis by simp
  next
    case False
    with Cons.prems(1) g obtain b where
      b: "build_maximal_block files occs min_lines ign = Some b" "Q b" by auto
    from assms(2) [OF Cons.prems(2) b(2)] Cons.IH Cons.prems(1)
    obtain bc where "build_groups files min_lines ign gs
        (umap_upd empty_agg (merge_block b) (content_key ign b) bc0) = Some bc" "P bc"
      by auto
    with False g b show ?thesis by simp
  qed
qed

lemma iteration_order_set: "iteration_order it \<Longrightarrow> set (it m) = set m"
  unfolding iteration_order_def by (metis set_mset_mset)

lemma find_blocks_ok:
  assumes wf: "wf_files files" and m: "0 < min_lines" and cons: "consistent files content"
    and so: "iteration_order seed_order" and co: "iteration_order content_order"
  shows "\<exists>out. find_blocks files min_lines ign seed_order content_order = Some out
           \<and> (\<forall>b\<in>set out. final_ok content ign b)"
proof -
  have groups: "\<forall>(k, occs)\<in>set (seed_order (build_seeds files min_lines ign)).
      2 \<le> length occs \<longrightarrow>
        (\<exists>b. build_maximal_block files occs min_lines ign = Some b \<and> block_ok content ign b)"
    unfolding iteration_order_set [OF so]
    using seed_group_candidate [OF wf m] candidate_block_ok [OF _ wf m cons]
    by blast
  have "by_content_ok content ign []" by (simp add: by_content_ok_def)
  from build_groups_inv [where P = "by_content_ok content ign" and Q = "block_ok content ign",
      OF groups by_content_ok_upd this]
  obtain bc where bc: "build_groups files min_lines ign
      (seed_order (build_seeds files min_lines ign)) [] = Some bc" "by_content_ok content ign bc"
    by blast
  have "\<forall>b\<in>set (final_list (content_order bc)). final_ok content ign b"
  proof
    fix b assume "b \<in> set (final_list (content_order bc))"
    then obtain k agg where "(k, agg) \<in> set (content_order bc)"
      and e': "2 \<le> length (Agg.hits agg)"
        "b = \<lparr>DuplicateBlock.lines = Agg.lines agg, hits = Agg.hits agg\<rparr>"
      by (auto simp: final_list_def)
    with iteration_order_set [OF co, of bc]
    have e: "(k, agg) \<in> set bc" "2 \<le> length (Agg.hits agg)"
      "b = \<lparr>DuplicateBlock.lines = Agg.lines agg, hits = Agg.hits agg\<rparr>"
      by simp_all
    with bc(2) have "agg_ok content ign k agg" by (auto simp: by_content_ok_def)
    with e(2,3) show "final_ok content ign b"
      by (simp add: agg_ok_def final_ok_def)
  qed
  with bc(1) show ?thesis by (simp add: find_blocks_def)
qed

lemma final_ok_emitted: "final_ok content ign b \<Longrightarrow> final_ok content ign (emitted b)"
proof -
  assume a: "final_ok content ign b"
  have "mset (DuplicateBlock.hits (emitted b)) = mset (DuplicateBlock.hits b)"
    by (simp add: emitted_def)
  then have "distinct (DuplicateBlock.hits (emitted b)) = distinct (DuplicateBlock.hits b)"
    by (rule mset_eq_imp_distinct_iff)
  with a show ?thesis
    by (simp add: final_ok_def emitted_def)
qed

lemma detect_duplicates_ok:
  assumes "0 < min_lines" "iteration_order seed_order" "iteration_order content_order"
  shows "\<exists>out. detect_duplicates fs files_paths min_lines ign seed_order content_order = Some out
           \<and> (\<forall>b\<in>set out. final_ok (read_lines_normalized fs) ign b)"
proof -
  from find_blocks_ok [OF load_files_wf assms(1) load_files_consistent assms(2,3)]
  obtain blocks where
    "find_repeated_blocks fs files_paths min_lines ign seed_order content_order = Some blocks"
    "\<forall>b\<in>set blocks. final_ok (read_lines_normalized fs) ign b"
    unfolding find_repeated_blocks_def by blast
  then show ?thesis
    by (auto simp: detect_duplicates_def intro: final_ok_emitted)
qed

lemma iteration_order_id: "iteration_order id"
  by (simp add: iteration_order_def)

lemma iteration_order_rev: "iteration_order rev"
  by (simp add: iteration_order_def)

lemma equal_line_sym: "equal_line ign a b \<Longrightarrow> equal_line ign b a"
  by (simp add: equal_line_norm)

lemma equal_line_trans: "equal_line ign a b \<Longrightarrow> equal_line ign b c \<Longrightarrow> equal_line ign a c"
  by (simp add: equal_line_norm)

lemma not_extendable_backward_hit:
  assumes "\<not> extendable_backward content ign H" "h \<in> H" "2 \<le> start_line h"
  shows "\<exists>g\<in>H. g \<noteq> h \<and> (start_line g < 2
           \<or> \<not> equal_line ign (content (Hit.path h) ! (start_line h - 2))
                               (content (Hit.path g) ! (start_line g - 2)))"
proof (rule ccontr)
  assume "\<not> ?thesis"
  then have all: "\<forall>g\<in>H. 2 \<le> start_line g
      \<and> equal_line ign (content (Hit.path h) ! (start_line h - 2))
                        (content (Hit.path g) ! (start_line g - 2))"
    using assms(3) by (auto simp: equal_line_norm)
  have "extendable_backward content ign H"
    unfolding extendable_backward_def
    using all equal_line_sym equal_line_trans by blast
  with assms(1) show False by simp
qed

lemma not_extendable_forward_hit:
  assumes "\<not> extendable_forward content ign H" "h \<in> H"
    and "end_line h < length (content (Hit.path h))"
  shows "\<exists>g\<in>H. g \<noteq> h \<and> (length (content (Hit.path g)) \<le> end_line g
           \<or> \<not> equal_line ign (content (Hit.path h) ! end_line h)
                               (content (Hit.path g) ! end_line g))"
proof (rule ccontr)
  assume "\<not> ?thesis"
  then have all: "\<forall>g\<in>H. end_line g < length (content (Hit.path g))
      \<and> equal_line ign (content (Hit.path h) ! end_line h)
                        (content (Hit.path g) ! end_line g)"
    using assms(3) by (auto simp: equal_line_norm not_le)
  have "extendable_forward content ign H"
    unfolding extendable_forward_def
    using all equal_line_sym equal_line_trans by blast
  with assms(1) show False by simp
qed

section \<open>Termination and absence of out-of-range reads\<close>

lemma extend_backward_total:
  assumes "occs \<noteq> []" "\<forall>oc\<in>set occs. valid_occ files len oc"
  shows "\<exists>a. (\<forall>oc\<in>set occs. a \<le> start oc)
           \<and> extend_backward files ign occs = Some (map (shift_back a) occs)"
  using assms
proof (induction files ign occs arbitrary: len rule: extend_backward.induct)
  case (1 files ign occs)
  have v0: "\<forall>oc\<in>set occs. valid_occ files 0 oc"
    using "1.prems"(2) by (auto simp: valid_occ_def)
  note can = can_extend_backward_eq [OF "1.prems"(1) v0, of ign]
  show ?case
  proof (cases "back_ok files ign occs")
    case False
    with can have "extend_backward files ign occs = Some occs"
      by (subst extend_backward.simps) simp
    then show ?thesis by (intro exI [of _ 0]) simp
  next
    case True
    then have pos: "\<forall>oc\<in>set occs. 0 < start oc" by (simp add: back_ok_def)
    let ?occs = "map step_back occs"
    have ne: "?occs \<noteq> []" using "1.prems"(1) by simp
    have valid: "\<forall>oc\<in>set ?occs. valid_occ files (Suc len) oc"
      using "1.prems"(2) pos by (auto simp: valid_occ_def step_back_def flines_def)
    from can True have can': "can_extend_backward files ign occs = Some True" by simp
    from "1.IH" [OF can' refl ne valid] obtain a where
      a: "\<forall>oc\<in>set ?occs. a \<le> start oc"
         "extend_backward files ign ?occs = Some (map (shift_back a) ?occs)"
      by blast
    have maps: "map (shift_back a) ?occs = map (shift_back (Suc a)) occs"
      by (simp add: shift_back_step)
    have "extend_backward files ign occs = extend_backward files ign ?occs"
      using can True by (subst extend_backward.simps) simp
    moreover have "\<forall>oc\<in>set occs. Suc a \<le> start oc"
    proof
      fix oc assume "oc \<in> set occs"
      with a(1) pos have "a \<le> start oc - 1" "0 < start oc" by (auto simp: step_back_def)
      then show "Suc a \<le> start oc" by arith
    qed
    ultimately show ?thesis
      using a(2) unfolding maps by (intro exI [of _ "Suc a"]) simp
  qed
qed

lemma extend_forward_total:
  assumes "occs \<noteq> []" "\<forall>oc\<in>set occs. valid_occ files len oc"
  shows "\<exists>L\<ge>len. extend_forward files ign occs len = Some L
           \<and> (\<forall>oc\<in>set occs. valid_occ files L oc)"
  using assms
proof (induction files ign occs len rule: extend_forward.induct)
  case (1 files ign occs len)
  have fi: "\<forall>oc\<in>set occs. file_index oc < length files"
    using "1.prems"(2) by (simp add: valid_occ_def)
  note can = can_extend_forward_eq [OF "1.prems"(1) fi, of ign len]
  show ?case
  proof (cases "fwd_ok files ign occs len")
    case False
    with can have "extend_forward files ign occs len = Some len"
      by (subst extend_forward.simps) simp
    with "1.prems" show ?thesis by auto
  next
    case True
    have valid: "\<forall>oc\<in>set occs. valid_occ files (len + 1) oc"
      using True fi by (auto simp: fwd_ok_def valid_occ_def)
    from can True have can': "can_extend_forward files ign occs len = Some True" by simp
    from "1.IH" [OF can' refl "1.prems"(1) valid] obtain L where
      L: "len + 1 \<le> L" "extend_forward files ign occs (len + 1) = Some L"
         "\<forall>oc\<in>set occs. valid_occ files L oc"
      by blast
    have "extend_forward files ign occs len = extend_forward files ign occs (len + 1)"
      using can True by (subst extend_forward.simps) simp
    with L show ?thesis by (intro exI [of _ L]) simp
  qed
qed

lemma build_maximal_block_total:
  assumes "occs \<noteq> []" "\<forall>oc\<in>set occs. valid_occ files seed_len oc"
  shows "\<exists>b. build_maximal_block files occs seed_len ign = Some b"
proof -
  from extend_backward_total [OF assms] obtain a where
    a: "\<forall>oc\<in>set occs. a \<le> start oc"
       "extend_backward files ign occs = Some (map (shift_back a) occs)"
    by blast
  let ?occs = "map (shift_back a) occs"
  have ne: "?occs \<noteq> []" using assms(1) by simp
  have valid: "\<forall>oc\<in>set ?occs. valid_occ files seed_len oc"
    using assms(2) a(1) by (auto simp: valid_occ_def shift_back_def flines_def)
  from extend_forward_total [OF ne valid] obtain L where
    "extend_forward files ign ?occs seed_len = Some L" "\<forall>oc\<in>set ?occs. valid_occ files L oc"
    by blast
  from build_maximal_block_eq [OF a(2) this(1) ne this(2)] show ?thesis by blast
qed

lemma find_blocks_total:
  assumes "iteration_order seed_order"
  shows "\<exists>out. find_blocks files min_lines ign seed_order content_order = Some out"
proof -
  have groups: "\<forall>(k, occs)\<in>set (seed_order (build_seeds files min_lines ign)).
      2 \<le> length occs \<longrightarrow>
        (\<exists>b. build_maximal_block files occs min_lines ign = Some b \<and> True)"
  proof (clarify)
    fix k occs
    assume "(k, occs) \<in> set (seed_order (build_seeds files min_lines ign))"
    then have "(k, occs) \<in> set (build_seeds files min_lines ign)"
      using iteration_order_set [OF assms] by simp
    then have "occs = bucket files min_lines ign k" "occs \<noteq> []"
      by (auto simp: build_seeds_entry bucket_def)
    then have "occs \<noteq> []" "\<forall>oc\<in>set occs. valid_occ files min_lines oc"
      by (simp_all add: bucket_iff)
    from build_maximal_block_total [OF this]
    show "\<exists>b. build_maximal_block files occs min_lines ign = Some b \<and> True" by simp
  qed
  from build_groups_inv [where P = "\<lambda>_. True" and Q = "\<lambda>_. True", OF groups]
  obtain bc where "build_groups files min_lines ign
      (seed_order (build_seeds files min_lines ign)) [] = Some bc"
    by blast
  then show ?thesis by (simp add: find_blocks_def)
qed

section \<open>No repeated window, no block\<close>

lemma positions_distinct: "distinct (positions files min_lines)"
proof -
  have "distinct (map occ_pos (positions files min_lines))"
    using positions_sorted [of files min_lines] strict_sorted_iff by blast
  then show ?thesis by (simp add: distinct_map)
qed

lemma build_groups_skip:
  "\<forall>(k, occs)\<in>set gs. length occs < 2 \<Longrightarrow> build_groups files min_lines ign gs bc = Some bc"
  by (induction gs) auto

lemma no_repeated_window_buckets:
  assumes wf: "wf_files files" and m: "0 < min_lines"
    and nr: "no_repeated_window files min_lines ign"
  shows "length (bucket files min_lines ign k) < 2"
proof (rule ccontr)
  assume "\<not> length (bucket files min_lines ign k) < 2"
  then have "2 \<le> length (bucket files min_lines ign k)" by simp
  then obtain a b rest where ab: "bucket files min_lines ign k = a # b # rest"
    by (cases "bucket files min_lines ign k"; cases "tl (bucket files min_lines ign k)") auto
  have "distinct (bucket files min_lines ign k)"
    unfolding bucket_def using positions_distinct by (rule distinct_filter)
  with ab have neq: "a \<noteq> b" by simp
  have ina: "a \<in> set (bucket files min_lines ign k)" and inb: "b \<in> set (bucket files min_lines ign k)"
    by (simp_all add: ab)
  then have va: "valid_occ files min_lines a" and vb: "valid_occ files min_lines b"
    and keys: "seed_key files min_lines ign a = seed_key files min_lines ign b"
    by (simp_all add: bucket_iff)
  from seed_key_eq_iff [OF wf m va vb] keys
  have "nslice files ign min_lines a = nslice files ign min_lines b" by simp
  moreover from ina inb have "a \<in> set (positions files min_lines)" "b \<in> set (positions files min_lines)"
    by (simp_all add: bucket_def)
  ultimately show False
    using nr neq unfolding no_repeated_window_def by blast
qed

lemma iteration_order_Nil: "iteration_order it \<Longrightarrow> it [] = []"
  unfolding iteration_order_def by (metis mset_zero_iff)

section \<open>Blocks merged under one content key are the same block\<close>

lemma shift_back_fwd [simp]: "shift_back a (shift_fwd a oc) = oc"
  by (simp add: shift_back_def shift_fwd_def)

lemma shift_fwd_back: "a \<le> start oc \<Longrightarrow> shift_fwd a (shift_back a oc) = oc"
  by (simp add: shift_back_def shift_fwd_def)

lemma valid_shift_fwd:
  "valid_occ files L oc \<Longrightarrow> a + len \<le> L \<Longrightarrow> valid_occ files len (shift_fwd a oc)"
  by (simp add: valid_occ_def shift_fwd_def flines_def)

lemma nslice_shift_fwd:
  "nslice files ign len (shift_fwd a oc) = take len (drop a (nslice files ign (a + len) oc))"
  by (simp add: nslice_def shift_fwd_def flines_def drop_map take_map drop_take add.commute)

lemma nslice_shift_fwd':
  assumes "a + len \<le> L"
  shows "nslice files ign len (shift_fwd a oc) = take len (drop a (nslice files ign L oc))"
proof -
  have "nslice files ign (a + len) oc = take (a + len) (nslice files ign L oc)"
    using assms by (rule nslice_take)
  then show ?thesis
    by (simp add: nslice_shift_fwd drop_take)
qed

lemma bucket_sorted: "sorted_wrt (<) (map occ_pos (bucket files min_lines ign k))"
  unfolding bucket_def sorted_wrt_map
  using positions_sorted [of files min_lines]
  by (auto simp: sorted_wrt_map intro: sorted_wrt_filter)

lemma shift_back_sorted:
  assumes "sorted_wrt (<) (map occ_pos occs)" "\<forall>oc\<in>set occs. a \<le> start oc"
  shows "sorted_wrt (<) (map occ_pos (map (shift_back a) occs))"
proof -
  have "sorted_wrt (\<lambda>x y. occ_pos x < occ_pos y) occs"
    using assms(1) by (simp add: sorted_wrt_map)
  then have "sorted_wrt (\<lambda>x y. occ_pos (shift_back a x) < occ_pos (shift_back a y)) occs"
  proof (rule sorted_wrt_mono_rel [rotated])
    fix x y assume "x \<in> set occs" "y \<in> set occs" "occ_pos x < occ_pos y"
    with assms(2) show "occ_pos (shift_back a x) < occ_pos (shift_back a y)"
      by (auto simp: occ_pos_def shift_back_def less_prod_def)
  qed
  then show ?thesis by (simp add: sorted_wrt_map)
qed

lemma occ_lists_equal:
  assumes "sorted_wrt (<) (map occ_pos xs)" "sorted_wrt (<) (map occ_pos ys)" "set xs = set ys"
  shows "xs = ys"
proof -
  have "map occ_pos xs = map occ_pos ys"
    using assms by (intro sorted_distinct_set_unique) (auto simp: strict_sorted_iff)
  moreover have "inj occ_pos" by (rule injI) (rule occ_pos_inj)
  ultimately show ?thesis by simp
qed

lemma block_of_nslice:
  "map (norm_line ign) (DuplicateBlock.lines (block_of files L occs)) = nslice files ign L (hd occs)"
  by (simp add: block_of_def nslice_def)

text \<open>
  The extended group of one candidate lies in the extended group of another that has the
  same content key.
\<close>

lemma extended_group_subset:
  assumes wf: "wf_files files" and m: "0 < min_lines"
    and ne1: "bucket files min_lines ign k1 \<noteq> []"
    and a1: "\<forall>oc\<in>set (bucket files min_lines ign k1). a1 \<le> start oc" "a1 + min_lines \<le> L"
    and v1: "\<forall>oc\<in>set (bucket files min_lines ign k1). valid_occ files L (shift_back a1 oc)"
    and ag1: "agree files ign L (map (shift_back a1) (bucket files min_lines ign k1))"
    and v2: "\<forall>oc\<in>set (bucket files min_lines ign k2). valid_occ files L (shift_back a2 oc)"
    and ag2: "agree files ign L (map (shift_back a2) (bucket files min_lines ign k2))"
    and ne2: "bucket files min_lines ign k2 \<noteq> []"
    and eq: "nslice files ign L (hd (map (shift_back a1) (bucket files min_lines ign k1)))
           = nslice files ign L (hd (map (shift_back a2) (bucket files min_lines ign k2)))"
  shows "set (map (shift_back a2) (bucket files min_lines ign k2))
           \<subseteq> set (map (shift_back a1) (bucket files min_lines ign k1))"
proof
  let ?G1 = "bucket files min_lines ign k1" and ?G2 = "bucket files min_lines ign k2"
  let ?X = "nslice files ign L (hd (map (shift_back a1) ?G1))"
  fix oc assume "oc \<in> set (map (shift_back a2) ?G2)"
  then obtain oc2 where oc2: "oc2 \<in> set ?G2" "oc = shift_back a2 oc2" by auto
  from v2 oc2 have valid: "valid_occ files L oc" by simp
  from ag2 oc2 eq have X2: "nslice files ign L oc = ?X"
    by (simp add: agree_def)
  from ne1 obtain oc1 where oc1: "oc1 \<in> set ?G1" by (cases ?G1) auto
  with v1 have valid1: "valid_occ files L (shift_back a1 oc1)" by simp
  from ag1 oc1 have X1: "nslice files ign L (shift_back a1 oc1) = ?X"
    by (simp add: agree_def)
  from oc1 a1(1) have sfb: "shift_fwd a1 (shift_back a1 oc1) = oc1"
    by (simp add: shift_fwd_back)
  have "nslice files ign min_lines oc1 = take min_lines (drop a1 ?X)"
    using nslice_shift_fwd' [OF a1(2), of files ign "shift_back a1 oc1"] sfb X1 by simp
  moreover have "nslice files ign min_lines (shift_fwd a1 oc) = take min_lines (drop a1 ?X)"
    using nslice_shift_fwd' [OF a1(2), of files ign oc] X2 by simp
  ultimately have same: "nslice files ign min_lines (shift_fwd a1 oc) = nslice files ign min_lines oc1"
    by simp
  have vf: "valid_occ files min_lines (shift_fwd a1 oc)"
    using valid a1(2) by (rule valid_shift_fwd)
  from oc1 have vo1: "valid_occ files min_lines oc1" and key1: "seed_key files min_lines ign oc1 = k1"
    by (simp_all add: bucket_iff)
  from seed_key_eq_iff [OF wf m vf vo1, of ign] same key1
  have "seed_key files min_lines ign (shift_fwd a1 oc) = k1" by simp
  with vf have "shift_fwd a1 oc \<in> set ?G1" by (simp add: bucket_iff)
  then have "shift_back a1 (shift_fwd a1 oc) \<in> shift_back a1 ` set ?G1"
    by (rule imageI)
  then show "oc \<in> set (map (shift_back a1) ?G1)" by simp
qed

lemma candidate_unique:
  assumes wf: "wf_files files" and m: "0 < min_lines"
    and c1: "candidate files min_lines ign b" and c2: "candidate files min_lines ign b'"
    and key: "content_key ign b = content_key ign b'"
  shows "b = b'"
proof -
  from c1 obtain k1 a1 L1 where
    len1: "2 \<le> length (bucket files min_lines ign k1)"
    and a1: "\<forall>oc\<in>set (bucket files min_lines ign k1). a1 \<le> start oc" "a1 + min_lines \<le> L1"
    and v1: "\<forall>oc\<in>set (bucket files min_lines ign k1). valid_occ files L1 (shift_back a1 oc)"
    and ag1: "agree files ign L1 (map (shift_back a1) (bucket files min_lines ign k1))"
    and b: "b = block_of files L1 (map (shift_back a1) (bucket files min_lines ign k1))"
    unfolding candidate_def by blast
  from c2 obtain k2 a2 L2 where
    len2: "2 \<le> length (bucket files min_lines ign k2)"
    and a2: "\<forall>oc\<in>set (bucket files min_lines ign k2). a2 \<le> start oc" "a2 + min_lines \<le> L2"
    and v2: "\<forall>oc\<in>set (bucket files min_lines ign k2). valid_occ files L2 (shift_back a2 oc)"
    and ag2: "agree files ign L2 (map (shift_back a2) (bucket files min_lines ign k2))"
    and b': "b' = block_of files L2 (map (shift_back a2) (bucket files min_lines ign k2))"
    unfolding candidate_def by blast
  let ?G1 = "map (shift_back a1) (bucket files min_lines ign k1)"
  let ?G2 = "map (shift_back a2) (bucket files min_lines ign k2)"
  have ne1: "bucket files min_lines ign k1 \<noteq> []" and ne2: "bucket files min_lines ign k2 \<noteq> []"
    using len1 len2 by auto
  have "?G1 \<noteq> []" "?G2 \<noteq> []" using ne1 ne2 by simp_all
  then have h1: "hd ?G1 \<in> set ?G1" and h2: "hd ?G2 \<in> set ?G2"
    using hd_in_set by blast+
  with v1 v2 have vh1: "valid_occ files L1 (hd ?G1)" and vh2: "valid_occ files L2 (hd ?G2)"
    by auto
  have "join_nl (nslice files ign L1 (hd ?G1)) = join_nl (nslice files ign L2 (hd ?G2))"
    using key by (simp add: content_key_eq b b' block_of_nslice)
  moreover have "\<forall>x\<in>set (nslice files ign L1 (hd ?G1)). LF \<notin> set x"
    "\<forall>x\<in>set (nslice files ign L2 (hd ?G2)). LF \<notin> set x"
    using nslice_no_lf [OF wf, of "hd ?G1" ign L1] nslice_no_lf [OF wf, of "hd ?G2" ign L2] vh1 vh2
    unfolding valid_occ_def by blast+
  moreover have "nslice files ign L1 (hd ?G1) \<noteq> []" "nslice files ign L2 (hd ?G2) \<noteq> []"
    using length_nslice [OF vh1, of ign] length_nslice [OF vh2, of ign] a1(2) a2(2) m by auto
  ultimately have X: "nslice files ign L1 (hd ?G1) = nslice files ign L2 (hd ?G2)"
    by (intro join_nl_inj)
  then have L: "L1 = L2"
    using length_nslice [OF vh1, of ign] length_nslice [OF vh2, of ign] by simp
  have "set ?G2 \<subseteq> set ?G1"
    using extended_group_subset [OF wf m ne1 a1 v1 ag1 _ _ ne2, of a2] v2 ag2 X
    unfolding L by blast
  moreover have "set ?G1 \<subseteq> set ?G2"
    using extended_group_subset [OF wf m ne2 a2 v2 ag2 _ _ ne1, of a1] v1 ag1 X
    unfolding L by simp
  ultimately have "set ?G1 = set ?G2" by blast
  moreover have "sorted_wrt (<) (map occ_pos ?G1)" "sorted_wrt (<) (map occ_pos ?G2)"
    using shift_back_sorted [OF bucket_sorted a1(1)] shift_back_sorted [OF bucket_sorted a2(1)]
    by simp_all
  ultimately have "?G1 = ?G2" by (intro occ_lists_equal)
  with b b' L show ?thesis by simp
qed

section \<open>The output does not depend on the enumeration order of the maps\<close>

lemma umap_upd_absent:
  "k \<notin> fst ` set m \<Longrightarrow> umap_upd d f k m = m @ [(k, f d)]"
  by (induction d f k m rule: umap_upd.induct) auto

lemma umap_upd_fixed:
  "distinct (map fst m) \<Longrightarrow> (k, v) \<in> set m \<Longrightarrow> f v = v \<Longrightarrow> umap_upd d f k m = m"
proof (induction d f k m rule: umap_upd.induct)
  case (1 d f k)
  then show ?case by simp
next
  case (2 d f k k' v' m)
  then show ?case by (auto simp: image_iff rev_image_eqI)
qed

lemma agg_lines_update_same: "Agg.lines a = v \<Longrightarrow> a\<lparr>Agg.lines := v\<rparr> = (a :: Agg)"
  by (cases a) simp

lemma merge_block_idem:
  "merge_block b (merge_block b empty_agg) = merge_block b empty_agg"
proof -
  let ?init = "\<lparr>Agg.lines = DuplicateBlock.lines b, hit_keys = {}, hits = []\<rparr>"
  let ?agg = "merge_block b empty_agg"
  have "hit_keys ?init = hit_key ` set (Agg.hits ?init)" "distinct (Agg.hits ?init)" by simp_all
  from add_hits_spec [OF this, of "DuplicateBlock.hits b"]
  have "hit_key ` set (DuplicateBlock.hits b) \<subseteq> hit_keys ?agg"
    by (auto simp: merge_block_empty_eq)
  then have "add_hits (DuplicateBlock.hits b) ?agg = ?agg" by (rule add_hits_same)
  moreover have "Agg.lines ?agg = DuplicateBlock.lines b" by (simp add: merge_block_empty_eq)
  then have "?agg\<lparr>Agg.lines := DuplicateBlock.lines b\<rparr> = ?agg"
    by (rule agg_lines_update_same)
  ultimately show ?thesis
    unfolding merge_block_def [of b ?agg] by (simp only: if_cancel)
qed

lemma entries_exact_upd:
  assumes wf: "wf_files files" and m: "0 < min_lines"
    and ex: "entries_exact files min_lines ign bc" and c: "candidate files min_lines ign b"
  shows "entries_exact files min_lines ign
           (umap_upd empty_agg (merge_block b) (content_key ign b) bc)
         \<and> set (umap_upd empty_agg (merge_block b) (content_key ign b) bc)
             = insert (entry_of ign b) (set bc)"
proof (cases "content_key ign b \<in> fst ` set bc")
  case False
  then have "umap_upd empty_agg (merge_block b) (content_key ign b) bc = bc @ [entry_of ign b]"
    by (simp add: umap_upd_absent entry_of_def)
  with False ex c show ?thesis
    by (auto simp: entries_exact_def entry_of_def)
next
  case True
  then obtain agg where e: "(content_key ign b, agg) \<in> set bc" by auto
  with ex obtain b' where b': "candidate files min_lines ign b'"
    "(content_key ign b, agg) = entry_of ign b'"
    unfolding entries_exact_def by blast
  then have "content_key ign b = content_key ign b'" by (simp add: entry_of_def)
  from candidate_unique [OF wf m c b'(1) this] b'(2)
  have agg: "agg = merge_block b empty_agg" by (simp add: entry_of_def)
  from ex have "distinct (map fst bc)" by (simp add: entries_exact_def)
  from umap_upd_fixed [OF this e, of "merge_block b" empty_agg]
  have "umap_upd empty_agg (merge_block b) (content_key ign b) bc = bc"
    by (simp add: agg merge_block_idem)
  with ex e agg show ?thesis
    by (auto simp: entry_of_def)
qed

lemma build_groups_exact:
  assumes wf: "wf_files files" and m: "0 < min_lines"
    and "set gs \<subseteq> set (build_seeds files min_lines ign)"
    and "entries_exact files min_lines ign bc0"
  shows "\<exists>bc. build_groups files min_lines ign gs bc0 = Some bc
           \<and> entries_exact files min_lines ign bc
           \<and> set bc = set bc0 \<union> entry_of ign ` blocks_of files min_lines ign gs"
  using assms(3,4)
proof (induction gs arbitrary: bc0)
  case Nil
  then show ?case by (simp add: blocks_of_def)
next
  case (Cons g gs)
  obtain k occs where g: "g = (k, occs)" by (cases g)
  show ?case
  proof (cases "length occs < 2")
    case True
    then have "blocks_of files min_lines ign (g # gs) = blocks_of files min_lines ign gs"
      by (auto simp: blocks_of_def g)
    with Cons True g show ?thesis by simp
  next
    case False
    from Cons.prems(1) g have "(k, occs) \<in> set (build_seeds files min_lines ign)" by simp
    from seed_group_candidate [OF wf m this] False obtain b where
      b: "build_maximal_block files occs min_lines ign = Some b" "candidate files min_lines ign b"
      by auto
    let ?bc1 = "umap_upd empty_agg (merge_block b) (content_key ign b) bc0"
    from entries_exact_upd [OF wf m Cons.prems(2) b(2)]
    have ex1: "entries_exact files min_lines ign ?bc1"
      and set1: "set ?bc1 = insert (entry_of ign b) (set bc0)" by simp_all
    from Cons.IH [OF _ ex1] Cons.prems(1) obtain bc where
      bc: "build_groups files min_lines ign gs ?bc1 = Some bc"
        "entries_exact files min_lines ign bc"
        "set bc = set ?bc1 \<union> entry_of ign ` blocks_of files min_lines ign gs"
      by auto
    have "blocks_of files min_lines ign (g # gs) = insert b (blocks_of files min_lines ign gs)"
      using False b(1) by (auto simp: blocks_of_def g)
    with bc set1 False g b(1) show ?thesis by auto
  qed
qed

lemma blocks_of_cong:
  "set gs = set gs' \<Longrightarrow> blocks_of files min_lines ign gs = blocks_of files min_lines ign gs'"
  by (simp add: blocks_of_def)

lemma entries_exact_lines_inj:
  assumes ex: "entries_exact files min_lines ign bc" and "e \<in> set bc" "e' \<in> set bc"
    and l: "Agg.lines (snd e) = Agg.lines (snd e')"
  shows "e = e'"
proof -
  from ex assms(2,3) obtain b b' where b: "e = entry_of ign b" "e' = entry_of ign b'"
    unfolding entries_exact_def by blast
  with l have "DuplicateBlock.lines b = DuplicateBlock.lines b'"
    by (simp add: entry_of_def merge_block_empty_eq)
  then have "fst e = fst e'" by (simp add: b entry_of_def content_key_eq)
  moreover from ex have "distinct (map fst bc)" by (simp add: entries_exact_def)
  ultimately show ?thesis
    using assms(2,3) by (metis eq_key_imp_eq_value prod.collapse)
qed

lemma entries_exact_perm:
  assumes "entries_exact files min_lines ign bc" "mset bc' = mset bc"
  shows "entries_exact files min_lines ign bc'"
proof -
  have "mset (map fst bc') = mset (map fst bc)" using assms(2) by (metis mset_map)
  then have "distinct (map fst bc') = distinct (map fst bc)" by (rule mset_eq_imp_distinct_iff)
  moreover have "set bc' = set bc" using assms(2) by (rule mset_eq_setD)
  ultimately show ?thesis using assms(1) by (simp add: entries_exact_def)
qed

lemma final_list_set:
  "set (final_list bc) =
     (\<lambda>e. \<lparr>DuplicateBlock.lines = Agg.lines (snd e), hits = Agg.hits (snd e)\<rparr>)
       ` {e \<in> set bc. 2 \<le> length (Agg.hits (snd e))}"
  by (simp add: final_list_def case_prod_unfold)

lemma final_list_distinct_lines:
  assumes ex: "entries_exact files min_lines ign bc"
    and "a \<in> set (final_list bc)" "b \<in> set (final_list bc)"
    and "DuplicateBlock.lines a = DuplicateBlock.lines b"
  shows "a = b"
proof -
  from assms(2,3) obtain e e' where e: "e \<in> set bc" "e' \<in> set bc"
    "a = \<lparr>DuplicateBlock.lines = Agg.lines (snd e), hits = Agg.hits (snd e)\<rparr>"
    "b = \<lparr>DuplicateBlock.lines = Agg.lines (snd e'), hits = Agg.hits (snd e')\<rparr>"
    unfolding final_list_set by blast
  with assms(4) have "Agg.lines (snd e) = Agg.lines (snd e')" by simp
  from entries_exact_lines_inj [OF ex e(1,2) this] e(3,4) show ?thesis by simp
qed

lemma final_list_distinct:
  assumes ex: "entries_exact files min_lines ign bc"
  shows "distinct (final_list bc)"
proof -
  let ?g = "\<lambda>(_ :: string, agg). \<lparr>DuplicateBlock.lines = Agg.lines agg, hits = Agg.hits agg\<rparr>"
  from ex have "distinct (map fst bc)" by (simp add: entries_exact_def)
  then have "distinct bc" by (simp add: distinct_map)
  then have "distinct (filter (\<lambda>(_, agg). 2 \<le> length (Agg.hits agg)) bc)" by simp
  moreover have "inj_on ?g (set (filter (\<lambda>(_, agg). 2 \<le> length (Agg.hits agg)) bc))"
  proof (rule inj_onI)
    fix e e'
    assume "e \<in> set (filter (\<lambda>(_, agg). 2 \<le> length (Agg.hits agg)) bc)"
      "e' \<in> set (filter (\<lambda>(_, agg). 2 \<le> length (Agg.hits agg)) bc)" "?g e = ?g e'"
    then have "e \<in> set bc" "e' \<in> set bc" "Agg.lines (snd e) = Agg.lines (snd e')"
      by (auto split: prod.splits)
    then show "e = e'" by (rule entries_exact_lines_inj [OF ex])
  qed
  ultimately show ?thesis
    unfolding final_list_def by (simp add: distinct_map)
qed

text \<open>A list sorted by an antisymmetric relation is determined by its elements.\<close>

lemma sorted_wrt_unique:
  assumes "\<And>a b. a \<in> set xs \<Longrightarrow> b \<in> set xs \<Longrightarrow> le a b \<Longrightarrow> le b a \<Longrightarrow> a = b"
    and "sorted_wrt le xs" "sorted_wrt le ys" "mset xs = mset ys"
  shows "xs = ys"
  using assms
proof (induction xs arbitrary: ys)
  case Nil
  then show ?case by simp
next
  case (Cons x xs)
  from Cons.prems(4) obtain y ys' where ys: "ys = y # ys'" by (cases ys) auto
  have sets: "set (x # xs) = set (y # ys')"
    using Cons.prems(4) unfolding ys by (rule mset_eq_setD)
  have xy: "x = y"
  proof (rule ccontr)
    assume neq: "x \<noteq> y"
    with sets have "x \<in> set ys'" "y \<in> set xs" by auto
    with Cons.prems(2,3) have "le y x" "le x y" by (auto simp: ys)
    moreover have "x \<in> set (x # xs)" "y \<in> set (x # xs)" using sets by auto
    ultimately have "x = y" using Cons.prems(1) by blast
    with neq show False by simp
  qed
  with Cons.prems(4) have "mset xs = mset ys'" by (simp add: ys)
  moreover from Cons.prems(2,3) have "sorted_wrt le xs" "sorted_wrt le ys'" by (simp_all add: ys)
  moreover have "\<And>a b. a \<in> set xs \<Longrightarrow> b \<in> set xs \<Longrightarrow> le a b \<Longrightarrow> le b a \<Longrightarrow> a = b"
    using Cons.prems(1) by simp
  ultimately have "xs = ys'" by (intro Cons.IH)
  with xy ys show ?case by simp
qed

lemma sort_blocks_unique:
  assumes "mset xs = mset ys"
    and "\<And>a b. a \<in> set xs \<Longrightarrow> b \<in> set xs \<Longrightarrow>
           DuplicateBlock.lines a = DuplicateBlock.lines b \<Longrightarrow> a = b"
  shows "sort_by block_less xs = sort_by block_less ys"
proof (rule sorted_wrt_unique [where le = "\<lambda>a b. \<not> block_less b a"])
  show "sorted_wrt (\<lambda>a b. \<not> block_less b a) (sort_by block_less xs)"
    "sorted_wrt (\<lambda>a b. \<not> block_less b a) (sort_by block_less ys)"
    by (rule sorted_blocks)+
  show "mset (sort_by block_less xs) = mset (sort_by block_less ys)"
    using assms(1) by simp
  fix a b
  assume "a \<in> set (sort_by block_less xs)" "b \<in> set (sort_by block_less xs)"
    and "\<not> block_less b a" "\<not> block_less a b"
  then have "a \<in> set xs" "b \<in> set xs" "DuplicateBlock.lines a = DuplicateBlock.lines b"
    by (auto simp: block_less_iff)
  then show "a = b" by (rule assms(2))
qed

text \<open>
  The blocks found are the same whatever the enumeration orders, as a list up to
  rearrangement, and no two of them store the same lines.
\<close>

lemma find_blocks_exact:
  assumes wf: "wf_files files" and m: "0 < min_lines"
    and so: "iteration_order seed_order" and co: "iteration_order content_order"
  shows "\<exists>bc out. find_blocks files min_lines ign seed_order content_order = Some out
           \<and> out = final_list (content_order bc)
           \<and> entries_exact files min_lines ign bc
           \<and> set bc = entry_of ign ` blocks_of files min_lines ign (build_seeds files min_lines ign)"
proof -
  have sub: "set (seed_order (build_seeds files min_lines ign))
               \<subseteq> set (build_seeds files min_lines ign)"
    using iteration_order_set [OF so] by simp
  have "entries_exact files min_lines ign []" by (simp add: entries_exact_def)
  from build_groups_exact [OF wf m sub this] obtain bc where
    bc: "build_groups files min_lines ign (seed_order (build_seeds files min_lines ign)) [] = Some bc"
      "entries_exact files min_lines ign bc"
      "set bc = entry_of ign ` blocks_of files min_lines ign
                  (seed_order (build_seeds files min_lines ign))"
    by auto
  have "blocks_of files min_lines ign (seed_order (build_seeds files min_lines ign))
        = blocks_of files min_lines ign (build_seeds files min_lines ign)"
    by (rule blocks_of_cong) (rule iteration_order_set [OF so])
  with bc(3) have "set bc = entry_of ign ` blocks_of files min_lines ign (build_seeds files min_lines ign)"
    by simp
  with bc(1,2) show ?thesis
    by (intro exI [of _ bc] exI [of _ "final_list (content_order bc)"]) (simp add: find_blocks_def)
qed

lemma find_blocks_order:
  assumes wf: "wf_files files" and m: "0 < min_lines"
    and so: "iteration_order seed_order" and co: "iteration_order content_order"
    and so': "iteration_order seed_order'" and co': "iteration_order content_order'"
  shows "\<exists>out out'. find_blocks files min_lines ign seed_order content_order = Some out
           \<and> find_blocks files min_lines ign seed_order' content_order' = Some out'
           \<and> mset out = mset out'
           \<and> (\<forall>a\<in>set out. \<forall>b\<in>set out.
                 DuplicateBlock.lines a = DuplicateBlock.lines b \<longrightarrow> a = b)"
proof -
  from find_blocks_exact [OF wf m so co, of ign] obtain bc where
    out: "find_blocks files min_lines ign seed_order content_order
            = Some (final_list (content_order bc))"
    and ex: "entries_exact files min_lines ign bc"
    and set: "set bc = entry_of ign ` blocks_of files min_lines ign (build_seeds files min_lines ign)"
    by auto
  from find_blocks_exact [OF wf m so' co', of ign] obtain bc' where
    out': "find_blocks files min_lines ign seed_order' content_order'
            = Some (final_list (content_order' bc'))"
    and ex': "entries_exact files min_lines ign bc'"
    and set': "set bc' = entry_of ign ` blocks_of files min_lines ign (build_seeds files min_lines ign)"
    by auto
  have p: "mset (content_order bc) = mset bc" "mset (content_order' bc') = mset bc'"
    using co co' by (simp_all add: iteration_order_def)
  have exc: "entries_exact files min_lines ign (content_order bc)"
    and exc': "entries_exact files min_lines ign (content_order' bc')"
    using entries_exact_perm [OF ex p(1)] entries_exact_perm [OF ex' p(2)] by simp_all
  have "set (content_order bc) = set (content_order' bc')"
    using mset_eq_setD [OF p(1)] mset_eq_setD [OF p(2)] set set' by simp
  then have "set (final_list (content_order bc)) = set (final_list (content_order' bc'))"
    by (simp add: final_list_set)
  with final_list_distinct [OF exc] final_list_distinct [OF exc']
  have "mset (final_list (content_order bc)) = mset (final_list (content_order' bc'))"
    by (simp add: set_eq_iff_mset_eq_distinct)
  with out out' final_list_distinct_lines [OF exc] show ?thesis by blast
qed

lemma detect_duplicates_order:
  assumes "0 < min_lines" "iteration_order seed_order" "iteration_order content_order"
    and "iteration_order seed_order'" "iteration_order content_order'"
  shows "detect_duplicates fs files_paths min_lines ign seed_order content_order
         = detect_duplicates fs files_paths min_lines ign seed_order' content_order'"
proof -
  from find_blocks_order [OF load_files_wf assms, of fs files_paths ign] obtain out out' where
    o: "find_repeated_blocks fs files_paths min_lines ign seed_order content_order = Some out"
       "find_repeated_blocks fs files_paths min_lines ign seed_order' content_order' = Some out'"
       "mset out = mset out'"
       "\<forall>a\<in>set out. \<forall>b\<in>set out. DuplicateBlock.lines a = DuplicateBlock.lines b \<longrightarrow> a = b"
    unfolding find_repeated_blocks_def by blast
  have "sort_by block_less out = sort_by block_less out'"
    using o(3,4) by (intro sort_blocks_unique) auto
  with o(1,2) show ?thesis by (simp add: detect_duplicates_def)
qed

section \<open>Hits of an aggregate are recorded once, whatever the seed length\<close>

lemma merge_block_hits_ok:
  assumes "hit_keys agg = hit_key ` set (Agg.hits agg)" "distinct (Agg.hits agg)"
  shows "hit_keys (merge_block b agg) = hit_key ` set (Agg.hits (merge_block b agg))
         \<and> distinct (Agg.hits (merge_block b agg))"
proof -
  let ?agg = "if Agg.lines agg = [] then agg\<lparr>Agg.lines := DuplicateBlock.lines b\<rparr> else agg"
  have "hit_keys ?agg = hit_key ` set (Agg.hits ?agg)" "distinct (Agg.hits ?agg)"
    using assms by simp_all
  from add_hits_spec [OF this, of "DuplicateBlock.hits b"] show ?thesis
    unfolding merge_block_def by blast
qed

lemma hits_ok_upd:
  assumes "hits_ok bc"
  shows "hits_ok (umap_upd empty_agg (merge_block b) k bc)"
  unfolding hits_ok_def
proof
  fix e
  assume e: "e \<in> set (umap_upd empty_agg (merge_block b) k bc)"
  obtain k' v' where kv: "e = (k', v')" by (cases e)
  from umap_upd_entry [OF e [unfolded kv]]
  consider "(k', v') \<in> set bc"
    | v where "(k, v) \<in> set bc" "v' = merge_block b v"
    | "v' = merge_block b empty_agg"
    by blast
  then show "hit_keys (snd e) = hit_key ` set (Agg.hits (snd e)) \<and> distinct (Agg.hits (snd e))"
  proof cases
    case 1
    with assms show ?thesis unfolding hits_ok_def kv by force
  next
    case 2
    from assms 2(1) have "hit_keys v = hit_key ` set (Agg.hits v)" "distinct (Agg.hits v)"
      unfolding hits_ok_def by force+
    from merge_block_hits_ok [OF this] 2(2) show ?thesis by (simp add: kv)
  next
    case 3
    have "hit_keys empty_agg = hit_key ` set (Agg.hits empty_agg)" "distinct (Agg.hits empty_agg)"
      by (simp_all add: empty_agg_def)
    from merge_block_hits_ok [OF this] 3 show ?thesis by (simp add: kv)
  qed
qed

lemma build_groups_hits_ok:
  assumes "build_groups files min_lines ign gs bc0 = Some bc" "hits_ok bc0"
  shows "hits_ok bc"
  using assms
proof (induction gs arbitrary: bc0)
  case Nil
  then show ?case by simp
next
  case (Cons g gs)
  obtain seed occs where g: "g = (seed, occs)" by (cases g)
  show ?case
  proof (cases "length occs < 2")
    case True
    with Cons.prems g show ?thesis by (auto intro: Cons.IH)
  next
    case False
    with Cons.prems(1) g obtain block where
      "build_groups files min_lines ign gs
         (umap_upd empty_agg (merge_block block) (content_key ign block) bc0) = Some bc"
      by (auto split: option.splits)
    from Cons.IH [OF this hits_ok_upd [OF Cons.prems(2)]] show ?thesis .
  qed
qed

lemma find_blocks_hits:
  assumes "find_blocks files min_lines ign seed_order content_order = Some out"
    and co: "iteration_order content_order"
  shows "\<forall>b\<in>set out. 2 \<le> length (DuplicateBlock.hits b) \<and> distinct (DuplicateBlock.hits b)"
proof -
  from assms(1) obtain bc where
    bg: "build_groups files min_lines ign (seed_order (build_seeds files min_lines ign)) [] = Some bc"
    and out: "out = final_list (content_order bc)"
    by (auto simp: find_blocks_def split: option.splits)
  have "hits_ok []" by (simp add: hits_ok_def)
  from build_groups_hits_ok [OF bg this] have "hits_ok bc" .
  then show ?thesis
    unfolding out final_list_set iteration_order_set [OF co] hits_ok_def by auto
qed

section \<open>What the glob translation matches\<close>

lemma to_regex_body_not_star: "to_regex_body s @ ''$'' = c # r \<Longrightarrow> c \<noteq> CHR ''*''"
  by (cases s) (auto simp: Let_def regex_specials_def split: if_splits)

lemma rx_parse_Nil: "rx_parse [] = Some []"
  by (simp add: rx_parse.simps)

lemma rx_parse_plain:
  assumes "rx_atom_at (x @ r) = Some (a, r)" "x \<noteq> []" "\<And>c r'. r = c # r' \<Longrightarrow> c \<noteq> CHR ''*''"
  shows "rx_parse (x @ r) = map_option (Cons (a, False)) (rx_parse r)"
  using assms by (subst rx_parse.simps) (auto split: list.splits)

lemma rx_parse_starred:
  assumes "rx_atom_at (x @ CHR ''*'' # r) = Some (a, CHR ''*'' # r)" "a \<noteq> RxBegin" "a \<noteq> RxEnd"
  shows "rx_parse (x @ CHR ''*'' # r) = map_option (Cons (a, True)) (rx_parse r)"
  using assms by (subst rx_parse.simps) auto

lemma rx_parse_body:
  "rx_parse (to_regex_body s @ ''$'') = Some (map tok_item (glob_tokens s) @ [(RxEnd, False)])"
proof (induction s rule: to_regex_body.induct)
  case 1
  have "rx_parse ''$'' = Some [(RxEnd, False)]"
    by (subst rx_parse.simps) (simp add: rx_atom_at_def rx_parse_Nil)
  then show ?case by simp
next
  case (2 c cs)
  let ?rest = "dropWhile (\<lambda>x. x = CHR ''*'') cs"
  show ?case
  proof (cases "c = CHR ''*''")
    case True
    note star = True
    show ?thesis
    proof (cases "takeWhile (\<lambda>x. x = CHR ''*'') cs = []")
      case True
      have "rx_parse (''[^/]'' @ CHR ''*'' # (to_regex_body ?rest @ ''$''))
            = map_option (Cons (RxNotSlash, True)) (rx_parse (to_regex_body ?rest @ ''$''))"
        by (rule rx_parse_starred) (simp_all add: rx_atom_at_def)
      moreover have "\<not> 2 \<le> Suc (length (takeWhile (\<lambda>x. x = CHR ''*'') cs))"
        using True by simp
      ultimately show ?thesis using True star "2.IH"(1) by (simp add: Let_def)
    next
      case False
      have "rx_parse (''.'' @ CHR ''*'' # (to_regex_body ?rest @ ''$''))
            = map_option (Cons (RxAny, True)) (rx_parse (to_regex_body ?rest @ ''$''))"
        by (rule rx_parse_starred) (simp_all add: rx_atom_at_def)
      moreover have "2 \<le> Suc (length (takeWhile (\<lambda>x. x = CHR ''*'') cs))"
        using False by (cases "takeWhile (\<lambda>x. x = CHR ''*'') cs") simp_all
      ultimately show ?thesis using False star "2.IH"(1) by (simp add: Let_def)
    qed
  next
    case False
    note nostar = False
    have ns: "\<And>d r'. to_regex_body cs @ ''$'' = d # r' \<Longrightarrow> d \<noteq> CHR ''*''"
      by (rule to_regex_body_not_star)
    show ?thesis
    proof (cases "c = CHR ''?''")
      case True
      have "rx_parse (''[^/]'' @ (to_regex_body cs @ ''$''))
            = map_option (Cons (RxNotSlash, False)) (rx_parse (to_regex_body cs @ ''$''))"
        by (rule rx_parse_plain) (simp_all add: rx_atom_at_def ns)
      with True nostar "2.IH"(2) show ?thesis by simp
    next
      case False
      note noq = False
      show ?thesis
      proof (cases "c \<in> set regex_specials")
        case True
        have "rx_parse ([CHR 0x5C, c] @ (to_regex_body cs @ ''$''))
              = map_option (Cons (RxChar c, False)) (rx_parse (to_regex_body cs @ ''$''))"
          using True by (intro rx_parse_plain) (simp_all add: rx_atom_at_def ns)
        with True nostar noq "2.IH"(3) show ?thesis by simp
      next
        case False
        have "rx_atom_at ([c] @ (to_regex_body cs @ ''$'')) = Some (RxChar c, to_regex_body cs @ ''$'')"
          using False nostar noq by (auto simp: rx_atom_at_def regex_specials_def)
        then have "rx_parse ([c] @ (to_regex_body cs @ ''$''))
              = map_option (Cons (RxChar c, False)) (rx_parse (to_regex_body cs @ ''$''))"
          by (rule rx_parse_plain) (simp_all add: ns)
        with False nostar noq "2.IH"(3) show ?thesis by simp
      qed
    qed
  qed
qed

lemma rx_parse_translation:
  "rx_parse (to_regex_from_glob_suffix suffix)
     = Some ((RxBegin, False) # map tok_item (glob_tokens suffix) @ [(RxEnd, False)])"
proof -
  have "rx_parse (''^'' @ (to_regex_body suffix @ ''$''))
          = map_option (Cons (RxBegin, False)) (rx_parse (to_regex_body suffix @ ''$''))"
    by (rule rx_parse_plain) (simp_all add: rx_atom_at_def to_regex_body_not_star)
  then show ?thesis
    by (simp add: to_regex_from_glob_suffix_def rx_parse_body)
qed

lemma rx_match_star:
  assumes "a \<noteq> RxBegin" "a \<noteq> RxEnd"
  shows "rx_match ((a, True) # r) b s \<longleftrightarrow>
           (\<exists>u v. s = u @ v \<and> (\<forall>c\<in>set u. atom_ok a c) \<and> rx_match r (b \<and> u = []) v)"
proof (induction s arbitrary: b)
  case Nil
  from assms show ?case by (cases a) auto
next
  case (Cons x xs)
  have step: "rx_match ((a, True) # r) b (x # xs) \<longleftrightarrow>
      rx_match r b (x # xs) \<or> (atom_ok a x \<and> rx_match ((a, True) # r) False xs)"
    using assms by (cases a) auto
  show ?case
  proof
    assume "rx_match ((a, True) # r) b (x # xs)"
    with step consider "rx_match r b (x # xs)"
      | "atom_ok a x" "rx_match ((a, True) # r) False xs" by blast
    then show "\<exists>u v. x # xs = u @ v \<and> (\<forall>c\<in>set u. atom_ok a c) \<and> rx_match r (b \<and> u = []) v"
    proof cases
      case 1
      then show ?thesis by (intro exI [of _ "[]"] exI [of _ "x # xs"]) simp
    next
      case 2
      from 2(2) Cons.IH [of False] obtain u v where
        "xs = u @ v" "\<forall>c\<in>set u. atom_ok a c" "rx_match r False v" by auto
      with 2(1) show ?thesis by (intro exI [of _ "x # u"] exI [of _ v]) simp
    qed
  next
    assume "\<exists>u v. x # xs = u @ v \<and> (\<forall>c\<in>set u. atom_ok a c) \<and> rx_match r (b \<and> u = []) v"
    then obtain u v where uv: "x # xs = u @ v" "\<forall>c\<in>set u. atom_ok a c" "rx_match r (b \<and> u = []) v"
      by blast
    show "rx_match ((a, True) # r) b (x # xs)"
    proof (cases u)
      case Nil
      with uv step show ?thesis by simp
    next
      case (Cons y u')
      with uv have "x = y" "xs = u' @ v" "atom_ok a x" "\<forall>c\<in>set u'. atom_ok a c" "rx_match r False v"
        by auto
      then have "rx_match ((a, True) # r) False xs"
        using Cons.IH [of False] by auto
      with \<open>atom_ok a x\<close> step show ?thesis by simp
    qed
  qed
qed

lemma rx_match_tokens:
  "rx_match (map tok_item ts @ [(RxEnd, False)]) b s \<longleftrightarrow> glob_sem ts s"
proof (induction ts arbitrary: b s)
  case Nil
  then show ?case by auto
next
  case (Cons t ts)
  show ?case
  proof (cases t)
    case Star
    have "(\<forall>c\<in>set u. atom_ok RxNotSlash c) \<longleftrightarrow> CHR ''/'' \<notin> set u" for u by auto
    with Star Cons.IH show ?thesis
      by (simp add: rx_match_star del: rx_match.simps)
  next
    case DoubleStar
    have "(\<forall>c\<in>set u. atom_ok RxAny c) \<longleftrightarrow> LF \<notin> set u \<and> CR \<notin> set u" for u by auto
    with DoubleStar Cons.IH show ?thesis
      by (simp add: rx_match_star del: rx_match.simps)
  next
    case Quest
    with Cons.IH show ?thesis by (cases s) auto
  next
    case (Lit c)
    with Cons.IH show ?thesis by (cases s) auto
  qed
qed

text \<open>
  The predicate of a glob suffix is total on the translation's output and anchored to the
  whole path: it holds exactly of the paths the wildcards of the suffix describe.
\<close>

lemma glob_match_sem: "glob_match suffix rel = Some (glob_sem (glob_tokens suffix) rel)"
  by (simp add: glob_match_def regex_match_def rx_parse_translation rx_match_tokens)

section \<open>The claims\<close>

text \<open>
  Claim C1. No block of the output can be extended by one line, before or after, with
  equality kept for all its hits at once. So, for a hit with a line before it, another hit
  of the block has no line before it or has a different one; likewise after.
\<close>

theorem detect_duplicates_maximal:
  assumes "0 < min_lines" "iteration_order seed_order" "iteration_order content_order"
  shows "\<exists>out. detect_duplicates fs files_paths min_lines ign seed_order content_order = Some out
     \<and> (\<forall>b\<in>set out.
          \<not> extendable_backward (read_lines_normalized fs) ign (set (DuplicateBlock.hits b))
        \<and> \<not> extendable_forward (read_lines_normalized fs) ign (set (DuplicateBlock.hits b))
        \<and> (\<forall>h\<in>set (DuplicateBlock.hits b). 2 \<le> start_line h \<longrightarrow>
             (\<exists>g\<in>set (DuplicateBlock.hits b). g \<noteq> h \<and> (start_line g < 2
                \<or> \<not> equal_line ign
                      (read_lines_normalized fs (Hit.path h) ! (start_line h - 2))
                      (read_lines_normalized fs (Hit.path g) ! (start_line g - 2)))))
        \<and> (\<forall>h\<in>set (DuplicateBlock.hits b).
             end_line h < length (read_lines_normalized fs (Hit.path h)) \<longrightarrow>
             (\<exists>g\<in>set (DuplicateBlock.hits b). g \<noteq> h
                \<and> (length (read_lines_normalized fs (Hit.path g)) \<le> end_line g
                   \<or> \<not> equal_line ign
                         (read_lines_normalized fs (Hit.path h) ! end_line h)
                         (read_lines_normalized fs (Hit.path g) ! end_line g)))))"
proof -
  from detect_duplicates_ok [OF assms] obtain out where
    out: "detect_duplicates fs files_paths min_lines ign seed_order content_order = Some out"
    and ok: "\<forall>b\<in>set out. final_ok (read_lines_normalized fs) ign b"
    by blast
  have "\<forall>b\<in>set out.
          \<not> extendable_backward (read_lines_normalized fs) ign (set (DuplicateBlock.hits b))
        \<and> \<not> extendable_forward (read_lines_normalized fs) ign (set (DuplicateBlock.hits b))"
    using ok by (simp add: final_ok_def)
  with out show ?thesis
    using not_extendable_backward_hit [of "read_lines_normalized fs" ign]
      not_extendable_forward_hit [of "read_lines_normalized fs" ign]
    by (intro exI [of _ out]) (simp only: simp_thms, blast)
qed

theorem detect_duplicates_maximal_witness:
  "detect_duplicates scenario_inner [''f1'', ''f2''] 2 False id id =
     Some [\<lparr>DuplicateBlock.lines = [''B'', ''C'', ''D''],
             hits = [\<lparr>Hit.path = ''f1'', start_line = 2, end_line = 4\<rparr>,
                     \<lparr>Hit.path = ''f2'', start_line = 1, end_line = 3\<rparr>]\<rparr>]
   \<and> \<not> extendable_backward (read_lines_normalized scenario_inner) False
          (set [\<lparr>Hit.path = ''f1'', start_line = 2, end_line = 4\<rparr>,
                \<lparr>Hit.path = ''f2'', start_line = 1, end_line = 3\<rparr>])
   \<and> \<not> extendable_forward (read_lines_normalized scenario_inner) False
          (set [\<lparr>Hit.path = ''f1'', start_line = 2, end_line = 4\<rparr>,
                \<lparr>Hit.path = ''f2'', start_line = 1, end_line = 3\<rparr>])"
proof -
  have ev: "detect_duplicates scenario_inner [''f1'', ''f2''] 2 False id id =
     Some [\<lparr>DuplicateBlock.lines = [''B'', ''C'', ''D''],
             hits = [\<lparr>Hit.path = ''f1'', start_line = 2, end_line = 4\<rparr>,
                     \<lparr>Hit.path = ''f2'', start_line = 1, end_line = 3\<rparr>]\<rparr>]"
    by code_simp
  have pos: "0 < (2::nat)" by simp
  from detect_duplicates_maximal [OF pos iteration_order_id iteration_order_id,
      of scenario_inner "[''f1'', ''f2'']" False]
  show ?thesis unfolding ev by simp
qed

text \<open>
  Claim C2. Scenario A: the files \<open>A B C D E\<close> and \<open>B C D E F\<close> with
  \<open>min_lines = 3\<close> and exact comparison give exactly one block, \<open>B C D E\<close>, with the
  two hits file1 [2, 5] and file2 [1, 4], whatever the enumeration orders of the maps.
\<close>

theorem scenario_a_one_block:
  assumes "iteration_order seed_order" "iteration_order content_order"
  shows "read_lines_normalized scenario_a ''file1'' = [''A'', ''B'', ''C'', ''D'', ''E'']
       \<and> read_lines_normalized scenario_a ''file2'' = [''B'', ''C'', ''D'', ''E'', ''F'']
       \<and> detect_duplicates scenario_a [''file1'', ''file2''] 3 False seed_order content_order =
           Some [\<lparr>DuplicateBlock.lines = [''B'', ''C'', ''D'', ''E''],
                   hits = [\<lparr>Hit.path = ''file1'', start_line = 2, end_line = 5\<rparr>,
                           \<lparr>Hit.path = ''file2'', start_line = 1, end_line = 4\<rparr>]\<rparr>]"
proof -
  have f1: "read_lines_normalized scenario_a ''file1'' = [''A'', ''B'', ''C'', ''D'', ''E'']"
    by code_simp
  have f2: "read_lines_normalized scenario_a ''file2'' = [''B'', ''C'', ''D'', ''E'', ''F'']"
    by code_simp
  have ev: "detect_duplicates scenario_a [''file1'', ''file2''] 3 False id id =
           Some [\<lparr>DuplicateBlock.lines = [''B'', ''C'', ''D'', ''E''],
                   hits = [\<lparr>Hit.path = ''file1'', start_line = 2, end_line = 5\<rparr>,
                           \<lparr>Hit.path = ''file2'', start_line = 1, end_line = 4\<rparr>]\<rparr>]"
    by code_simp
  have pos: "0 < (3::nat)" by simp
  from detect_duplicates_order [OF pos assms iteration_order_id iteration_order_id,
      of scenario_a "[''file1'', ''file2'']" False] ev f1 f2
  show ?thesis by simp
qed

theorem scenario_a_one_block_witness:
  "read_lines_normalized scenario_a ''file1'' = [''A'', ''B'', ''C'', ''D'', ''E'']
   \<and> read_lines_normalized scenario_a ''file2'' = [''B'', ''C'', ''D'', ''E'', ''F'']
   \<and> detect_duplicates scenario_a [''file1'', ''file2''] 3 False rev rev =
       Some [\<lparr>DuplicateBlock.lines = [''B'', ''C'', ''D'', ''E''],
               hits = [\<lparr>Hit.path = ''file1'', start_line = 2, end_line = 5\<rparr>,
                       \<lparr>Hit.path = ''file2'', start_line = 1, end_line = 4\<rparr>]\<rparr>]"
  by (rule scenario_a_one_block [OF iteration_order_rev iteration_order_rev])

text \<open>
  Claim C3. The output is the same whatever the orders in which the two unordered maps
  enumerate their entries: the blocks found are the same up to rearrangement, each with
  the same stored lines and hits, and the sorted output is the same list.
\<close>

theorem detect_duplicates_deterministic:
  assumes "0 < min_lines" "iteration_order seed_order" "iteration_order content_order"
    and "iteration_order seed_order'" "iteration_order content_order'"
  shows "detect_duplicates fs files_paths min_lines ign seed_order content_order
           = detect_duplicates fs files_paths min_lines ign seed_order' content_order'
         \<and> (\<exists>out out'.
               find_repeated_blocks fs files_paths min_lines ign seed_order content_order = Some out
             \<and> find_repeated_blocks fs files_paths min_lines ign seed_order' content_order' = Some out'
             \<and> mset out = mset out')"
proof -
  from find_blocks_order [OF load_files_wf assms, of fs files_paths ign]
  have "\<exists>out out'.
          find_repeated_blocks fs files_paths min_lines ign seed_order content_order = Some out
        \<and> find_repeated_blocks fs files_paths min_lines ign seed_order' content_order' = Some out'
        \<and> mset out = mset out'"
    unfolding find_repeated_blocks_def by blast
  with detect_duplicates_order [OF assms] show ?thesis by blast
qed

theorem detect_duplicates_deterministic_witness:
  "detect_duplicates scenario_two_blocks [''f1'', ''f2'', ''f3''] 2 False id id
     = detect_duplicates scenario_two_blocks [''f1'', ''f2'', ''f3''] 2 False rev id
   \<and> find_repeated_blocks scenario_two_blocks [''f1'', ''f2'', ''f3''] 2 False id id
       = Some [\<lparr>DuplicateBlock.lines = [''A'', ''B'', ''C''],
               hits = [\<lparr>Hit.path = ''f1'', start_line = 1, end_line = 3\<rparr>,
                       \<lparr>Hit.path = ''f2'', start_line = 1, end_line = 3\<rparr>]\<rparr>,
               \<lparr>DuplicateBlock.lines = [''P'', ''Q''],
               hits = [\<lparr>Hit.path = ''f1'', start_line = 5, end_line = 6\<rparr>,
                       \<lparr>Hit.path = ''f2'', start_line = 5, end_line = 6\<rparr>,
                       \<lparr>Hit.path = ''f3'', start_line = 1, end_line = 2\<rparr>]\<rparr>]
   \<and> find_repeated_blocks scenario_two_blocks [''f1'', ''f2'', ''f3''] 2 False rev id
       = Some [\<lparr>DuplicateBlock.lines = [''P'', ''Q''],
               hits = [\<lparr>Hit.path = ''f1'', start_line = 5, end_line = 6\<rparr>,
                       \<lparr>Hit.path = ''f2'', start_line = 5, end_line = 6\<rparr>,
                       \<lparr>Hit.path = ''f3'', start_line = 1, end_line = 2\<rparr>]\<rparr>,
               \<lparr>DuplicateBlock.lines = [''A'', ''B'', ''C''],
               hits = [\<lparr>Hit.path = ''f1'', start_line = 1, end_line = 3\<rparr>,
                       \<lparr>Hit.path = ''f2'', start_line = 1, end_line = 3\<rparr>]\<rparr>]"
proof -
  have pos: "0 < (2::nat)" by simp
  have e1: "find_repeated_blocks scenario_two_blocks [''f1'', ''f2'', ''f3''] 2 False id id
       = Some [\<lparr>DuplicateBlock.lines = [''A'', ''B'', ''C''],
               hits = [\<lparr>Hit.path = ''f1'', start_line = 1, end_line = 3\<rparr>,
                       \<lparr>Hit.path = ''f2'', start_line = 1, end_line = 3\<rparr>]\<rparr>,
               \<lparr>DuplicateBlock.lines = [''P'', ''Q''],
               hits = [\<lparr>Hit.path = ''f1'', start_line = 5, end_line = 6\<rparr>,
                       \<lparr>Hit.path = ''f2'', start_line = 5, end_line = 6\<rparr>,
                       \<lparr>Hit.path = ''f3'', start_line = 1, end_line = 2\<rparr>]\<rparr>]"
    by code_simp
  have e2: "find_repeated_blocks scenario_two_blocks [''f1'', ''f2'', ''f3''] 2 False rev id
       = Some [\<lparr>DuplicateBlock.lines = [''P'', ''Q''],
               hits = [\<lparr>Hit.path = ''f1'', start_line = 5, end_line = 6\<rparr>,
                       \<lparr>Hit.path = ''f2'', start_line = 5, end_line = 6\<rparr>,
                       \<lparr>Hit.path = ''f3'', start_line = 1, end_line = 2\<rparr>]\<rparr>,
               \<lparr>DuplicateBlock.lines = [''A'', ''B'', ''C''],
               hits = [\<lparr>Hit.path = ''f1'', start_line = 1, end_line = 3\<rparr>,
                       \<lparr>Hit.path = ''f2'', start_line = 1, end_line = 3\<rparr>]\<rparr>]"
    by code_simp
  from detect_duplicates_deterministic [OF pos iteration_order_id iteration_order_id
      iteration_order_rev iteration_order_id, of scenario_two_blocks "[''f1'', ''f2'', ''f3'']" False]
  have "detect_duplicates scenario_two_blocks [''f1'', ''f2'', ''f3''] 2 False id id
     = detect_duplicates scenario_two_blocks [''f1'', ''f2'', ''f3''] 2 False rev id"
    by (rule conjunct1)
  with e1 e2 show ?thesis by (intro conjI)
qed

text \<open>
  Claim C4. Every block of the output has at least two hits, and its hits are pairwise
  distinct as triples of path, start line and end line.
\<close>

theorem detect_duplicates_hits_distinct:
  assumes "iteration_order seed_order" "iteration_order content_order"
  shows "\<exists>out. detect_duplicates fs files_paths min_lines ign seed_order content_order = Some out
           \<and> (\<forall>b\<in>set out. 2 \<le> length (DuplicateBlock.hits b)
                 \<and> distinct (map (\<lambda>h. (Hit.path h, start_line h, end_line h))
                               (DuplicateBlock.hits b)))"
proof -
  from find_blocks_total [OF assms(1)] obtain blocks where
    fb: "find_blocks (load_files fs files_paths) min_lines ign seed_order content_order = Some blocks"
    by blast
  note hs = find_blocks_hits [OF fb assms(2)]
  let ?out = "map emitted (sort_by block_less blocks)"
  have out: "detect_duplicates fs files_paths min_lines ign seed_order content_order = Some ?out"
    by (simp add: detect_duplicates_def find_repeated_blocks_def fb)
  have "2 \<le> length (DuplicateBlock.hits b)
        \<and> distinct (map (\<lambda>h. (Hit.path h, start_line h, end_line h)) (DuplicateBlock.hits b))"
    if "b \<in> set ?out" for b
  proof -
    from that obtain b0 where b0: "b0 \<in> set blocks" "b = emitted b0" by auto
    have "mset (DuplicateBlock.hits b) = mset (DuplicateBlock.hits b0)"
      by (simp add: b0(2) emitted_def)
    then have "distinct (DuplicateBlock.hits b) = distinct (DuplicateBlock.hits b0)"
      "length (DuplicateBlock.hits b) = length (DuplicateBlock.hits b0)"
      by (rule mset_eq_imp_distinct_iff, metis size_mset)
    with hs b0(1) have "2 \<le> length (DuplicateBlock.hits b)" "distinct (DuplicateBlock.hits b)"
      by auto
    moreover have "inj_on (\<lambda>h. (Hit.path h, start_line h, end_line h)) (set (DuplicateBlock.hits b))"
      by (rule inj_onI) simp
    ultimately show ?thesis by (simp add: distinct_map)
  qed
  with out show ?thesis by blast
qed

theorem detect_duplicates_hits_distinct_witness:
  "detect_duplicates scenario_a [''file1'', ''file1'', ''file2''] 3 False id rev =
     Some [\<lparr>DuplicateBlock.lines = [''B'', ''C'', ''D'', ''E''],
             hits = [\<lparr>Hit.path = ''file1'', start_line = 2, end_line = 5\<rparr>,
                     \<lparr>Hit.path = ''file2'', start_line = 1, end_line = 4\<rparr>]\<rparr>]
   \<and> 2 \<le> length [\<lparr>Hit.path = ''file1'', start_line = 2, end_line = 5\<rparr>,
                   \<lparr>Hit.path = ''file2'', start_line = 1, end_line = 4\<rparr>]
   \<and> distinct [(''file1'', 2::nat, 5::nat), (''file2'', 1, 4)]"
proof -
  have ev: "detect_duplicates scenario_a [''file1'', ''file1'', ''file2''] 3 False id rev =
     Some [\<lparr>DuplicateBlock.lines = [''B'', ''C'', ''D'', ''E''],
             hits = [\<lparr>Hit.path = ''file1'', start_line = 2, end_line = 5\<rparr>,
                     \<lparr>Hit.path = ''file2'', start_line = 1, end_line = 4\<rparr>]\<rparr>]"
    by code_simp
  from detect_duplicates_hits_distinct [OF iteration_order_id iteration_order_rev,
      of scenario_a "[''file1'', ''file1'', ''file2'']" 3 False]
  show ?thesis unfolding ev by simp
qed

text \<open>
  Claim C5. For every block of the output and every hit of it,
  \<open>end_line - start_line + 1\<close> is the number of lines the block stores.
\<close>

theorem detect_duplicates_range_consistent:
  assumes "0 < min_lines" "iteration_order seed_order" "iteration_order content_order"
  shows "\<exists>out. detect_duplicates fs files_paths min_lines ign seed_order content_order = Some out
           \<and> (\<forall>b\<in>set out. \<forall>h\<in>set (DuplicateBlock.hits b).
                 start_line h \<le> end_line h
                 \<and> end_line h - start_line h + 1 = length (DuplicateBlock.lines b))"
proof -
  from detect_duplicates_ok [OF assms] obtain out where
    out: "detect_duplicates fs files_paths min_lines ign seed_order content_order = Some out"
    and ok: "\<forall>b\<in>set out. final_ok (read_lines_normalized fs) ign b"
    by blast
  have "start_line h \<le> end_line h
        \<and> end_line h - start_line h + 1 = length (DuplicateBlock.lines b)"
    if "b \<in> set out" "h \<in> set (DuplicateBlock.hits b)" for b h
  proof -
    from ok that have "DuplicateBlock.lines b \<noteq> []"
      and "hit_in_range (read_lines_normalized fs) (length (DuplicateBlock.lines b)) h"
      by (simp_all add: final_ok_def)
    then have "0 < length (DuplicateBlock.lines b)"
      and "end_line h + 1 = start_line h + length (DuplicateBlock.lines b)"
      by (simp_all add: hit_in_range_def)
    then show ?thesis by arith
  qed
  with out show ?thesis by blast
qed

theorem detect_duplicates_range_consistent_witness:
  "detect_duplicates scenario_a [''file1'', ''file2''] 3 False rev id =
     Some [\<lparr>DuplicateBlock.lines = [''B'', ''C'', ''D'', ''E''],
             hits = [\<lparr>Hit.path = ''file1'', start_line = 2, end_line = 5\<rparr>,
                     \<lparr>Hit.path = ''file2'', start_line = 1, end_line = 4\<rparr>]\<rparr>]
   \<and> (5::nat) - 2 + 1 = length [''B'', ''C'', ''D'', ''E'']
   \<and> (4::nat) - 1 + 1 = length [''B'', ''C'', ''D'', ''E'']"
proof -
  have ev: "detect_duplicates scenario_a [''file1'', ''file2''] 3 False rev id =
     Some [\<lparr>DuplicateBlock.lines = [''B'', ''C'', ''D'', ''E''],
             hits = [\<lparr>Hit.path = ''file1'', start_line = 2, end_line = 5\<rparr>,
                     \<lparr>Hit.path = ''file2'', start_line = 1, end_line = 4\<rparr>]\<rparr>]"
    by code_simp
  have pos: "0 < (3::nat)" by simp
  from detect_duplicates_range_consistent [OF pos iteration_order_rev iteration_order_id,
      of scenario_a "[''file1'', ''file2'']" False]
  show ?thesis unfolding ev by simp
qed

text \<open>
  Claim C6. The final block list is sorted by line count descending, then by hit count
  descending, then by content ascending (first line, then the full line sequence), and the
  hits of every emitted block are sorted by path, then start line, then end line.
\<close>

theorem detect_duplicates_sorted:
  assumes "detect_duplicates fs files_paths min_lines ign seed_order content_order = Some out"
  shows "sorted_wrt blocks_ordered out
         \<and> (\<forall>b\<in>set out. sorted_wrt hits_ordered (DuplicateBlock.hits b))"
proof -
  from assms obtain blocks where
    out: "out = map emitted (sort_by block_less blocks)"
    by (auto simp: detect_duplicates_def)
  have "sorted_wrt blocks_ordered (sort_by block_less blocks)"
    using sorted_blocks [of blocks] not_block_less
    by (rule sorted_wrt_mono_rel [rotated])
  then have first: "sorted_wrt blocks_ordered out"
    by (simp add: out sorted_wrt_map blocks_ordered_emitted)
  have second: "\<forall>b\<in>set out. sorted_wrt hits_ordered (DuplicateBlock.hits b)"
  proof
    fix b assume "b \<in> set out"
    then obtain b0 where "b = emitted b0" by (auto simp: out)
    then have "DuplicateBlock.hits b = sort_by hit_less (DuplicateBlock.hits b0)"
      by (simp add: emitted_def)
    moreover have "sorted_wrt hits_ordered (sort_by hit_less (DuplicateBlock.hits b0))"
      using sorted_hits [of "DuplicateBlock.hits b0"] not_hit_less
      by (rule sorted_wrt_mono_rel [rotated])
    ultimately show "sorted_wrt hits_ordered (DuplicateBlock.hits b)" by simp
  qed
  from first second show ?thesis by simp
qed

theorem detect_duplicates_sorted_witness:
  "detect_duplicates scenario_two_blocks [''f3'', ''f2'', ''f1''] 2 False rev id =
     Some [\<lparr>DuplicateBlock.lines = [''A'', ''B'', ''C''],
             hits = [\<lparr>Hit.path = ''f1'', start_line = 1, end_line = 3\<rparr>,
                     \<lparr>Hit.path = ''f2'', start_line = 1, end_line = 3\<rparr>]\<rparr>,
           \<lparr>DuplicateBlock.lines = [''P'', ''Q''],
             hits = [\<lparr>Hit.path = ''f1'', start_line = 5, end_line = 6\<rparr>,
                     \<lparr>Hit.path = ''f2'', start_line = 5, end_line = 6\<rparr>,
                     \<lparr>Hit.path = ''f3'', start_line = 1, end_line = 2\<rparr>]\<rparr>]
   \<and> sorted_wrt blocks_ordered
        [\<lparr>DuplicateBlock.lines = [''A'', ''B'', ''C''],
             hits = [\<lparr>Hit.path = ''f1'', start_line = 1, end_line = 3\<rparr>,
                     \<lparr>Hit.path = ''f2'', start_line = 1, end_line = 3\<rparr>]\<rparr>,
           \<lparr>DuplicateBlock.lines = [''P'', ''Q''],
             hits = [\<lparr>Hit.path = ''f1'', start_line = 5, end_line = 6\<rparr>,
                     \<lparr>Hit.path = ''f2'', start_line = 5, end_line = 6\<rparr>,
                     \<lparr>Hit.path = ''f3'', start_line = 1, end_line = 2\<rparr>]\<rparr>]
   \<and> sorted_wrt hits_ordered
        [\<lparr>Hit.path = ''f1'', start_line = 5, end_line = 6\<rparr>,
         \<lparr>Hit.path = ''f2'', start_line = 5, end_line = 6\<rparr>,
         \<lparr>Hit.path = ''f3'', start_line = 1, end_line = 2\<rparr>]"
proof -
  have ev: "detect_duplicates scenario_two_blocks [''f3'', ''f2'', ''f1''] 2 False rev id =
     Some [\<lparr>DuplicateBlock.lines = [''A'', ''B'', ''C''],
             hits = [\<lparr>Hit.path = ''f1'', start_line = 1, end_line = 3\<rparr>,
                     \<lparr>Hit.path = ''f2'', start_line = 1, end_line = 3\<rparr>]\<rparr>,
           \<lparr>DuplicateBlock.lines = [''P'', ''Q''],
             hits = [\<lparr>Hit.path = ''f1'', start_line = 5, end_line = 6\<rparr>,
                     \<lparr>Hit.path = ''f2'', start_line = 5, end_line = 6\<rparr>,
                     \<lparr>Hit.path = ''f3'', start_line = 1, end_line = 2\<rparr>]\<rparr>]"
    by code_simp
  from detect_duplicates_sorted [OF ev] ev show ?thesis by simp
qed

text \<open>
  Claim C7. The lines a block stores are the lines of the range of one of its hits, as
  they stand in that hit's file: the comparison mode never rewrites them.
\<close>

theorem detect_duplicates_lines_verbatim:
  assumes "0 < min_lines" "iteration_order seed_order" "iteration_order content_order"
  shows "\<exists>out. detect_duplicates fs files_paths min_lines ign seed_order content_order = Some out
           \<and> (\<forall>b\<in>set out. \<exists>h\<in>set (DuplicateBlock.hits b).
                 DuplicateBlock.lines b =
                   take (end_line h + 1 - start_line h)
                     (drop (start_line h - 1) (read_lines_normalized fs (Hit.path h))))"
proof -
  from detect_duplicates_ok [OF assms] obtain out where
    out: "detect_duplicates fs files_paths min_lines ign seed_order content_order = Some out"
    and ok: "\<forall>b\<in>set out. final_ok (read_lines_normalized fs) ign b"
    by blast
  from ok have "\<forall>b\<in>set out. \<exists>h\<in>set (DuplicateBlock.hits b).
      DuplicateBlock.lines b = hit_slice (read_lines_normalized fs) h"
    by (simp add: final_ok_def)
  with out show ?thesis unfolding hit_slice_def by blast
qed

theorem detect_duplicates_lines_verbatim_witness:
  "detect_duplicates scenario_c [''file1'', ''file2''] 3 True id id =
     Some [\<lparr>DuplicateBlock.lines = [''a'', ''b'', ''  x''],
             hits = [\<lparr>Hit.path = ''file1'', start_line = 1, end_line = 3\<rparr>,
                     \<lparr>Hit.path = ''file2'', start_line = 1, end_line = 3\<rparr>]\<rparr>]
   \<and> read_lines_normalized scenario_c ''file1'' = [''a'', ''b'', ''  x'']
   \<and> read_lines_normalized scenario_c ''file2'' = [''a'', ''b'', ''x'']
   \<and> (\<exists>h\<in>set [\<lparr>Hit.path = ''file1'', start_line = 1, end_line = 3\<rparr>,
                 \<lparr>Hit.path = ''file2'', start_line = 1, end_line = 3\<rparr>].
         [''a'', ''b'', ''  x''] =
           take (end_line h + 1 - start_line h)
             (drop (start_line h - 1) (read_lines_normalized scenario_c (Hit.path h))))"
proof -
  have ev: "detect_duplicates scenario_c [''file1'', ''file2''] 3 True id id =
     Some [\<lparr>DuplicateBlock.lines = [''a'', ''b'', ''  x''],
             hits = [\<lparr>Hit.path = ''file1'', start_line = 1, end_line = 3\<rparr>,
                     \<lparr>Hit.path = ''file2'', start_line = 1, end_line = 3\<rparr>]\<rparr>]"
    by code_simp
  have f1: "read_lines_normalized scenario_c ''file1'' = [''a'', ''b'', ''  x'']"
    and f2: "read_lines_normalized scenario_c ''file2'' = [''a'', ''b'', ''x'']"
    by code_simp+
  have pos: "0 < (3::nat)" by simp
  from detect_duplicates_lines_verbatim [OF pos iteration_order_id iteration_order_id,
      of scenario_c "[''file1'', ''file2'']" True]
  show ?thesis unfolding ev using f1 f2 by simp
qed

text \<open>
  Claim C8. The translation gives \<open>^.*$\<close> for the suffix \<open>**\<close>, and the atom \<open>.\<close>
  of the ECMAScript grammar matches no line terminator: a relative path that holds a line
  feed is not matched by \<open>**\<close>, while the single star, translated to \<open>[^/]*\<close>,
  matches it. So a run of two or more stars does not match every run of characters.
\<close>

theorem glob_double_star_line_feed:
  "to_regex_from_glob_suffix ''**'' = ''^.*$''
   \<and> glob_match ''**'' [CHR ''a'', LF, CHR ''b''] = Some False
   \<and> glob_match ''*'' [CHR ''a'', LF, CHR ''b''] = Some True
   \<and> glob_match ''**'' ''a/b'' = Some True
   \<and> glob_match ''*'' ''a/b'' = Some False"
  by code_simp

text \<open>
  Claim C9. If no window of \<open>min_lines\<close> lines occurs at two distinct locations of the
  loaded file set, under the comparison mode, the result is the empty list.
\<close>

theorem detect_duplicates_empty:
  assumes "0 < min_lines" "iteration_order seed_order" "iteration_order content_order"
    and "no_repeated_window (load_files fs files_paths) min_lines ign"
  shows "detect_duplicates fs files_paths min_lines ign seed_order content_order = Some []"
proof -
  let ?files = "load_files fs files_paths"
  have "\<forall>(k, occs)\<in>set (seed_order (build_seeds ?files min_lines ign)). length occs < 2"
  proof (clarify)
    fix k occs
    assume "(k, occs) \<in> set (seed_order (build_seeds ?files min_lines ign))"
    then have "(k, occs) \<in> set (build_seeds ?files min_lines ign)"
      using iteration_order_set [OF assms(2)] by simp
    then have "occs = bucket ?files min_lines ign k"
      by (auto simp: build_seeds_entry bucket_def)
    with no_repeated_window_buckets [OF load_files_wf assms(1,4)]
    show "length occs < 2" by simp
  qed
  then have "build_groups ?files min_lines ign (seed_order (build_seeds ?files min_lines ign)) []
      = Some []"
    by (rule build_groups_skip)
  then show ?thesis
    by (simp add: detect_duplicates_def find_repeated_blocks_def find_blocks_def
          iteration_order_Nil [OF assms(3)] final_list_def sort_by_def)
qed

theorem detect_duplicates_empty_witness:
  "no_repeated_window (load_files scenario_c [''file1'', ''file2'']) 3 False
   \<and> detect_duplicates scenario_c [''file1'', ''file2''] 3 False id rev = Some []
   \<and> no_repeated_window (load_files scenario_b [''file1'', ''file2'']) 3 False
   \<and> detect_duplicates scenario_b [''file1'', ''file2''] 3 False id rev = Some []"
proof -
  have h: "no_repeated_window (load_files scenario_c [''file1'', ''file2'']) 3 False"
    by code_simp
  have h': "no_repeated_window (load_files scenario_b [''file1'', ''file2'']) 3 False"
    by code_simp
  have pos: "0 < (3::nat)" by simp
  from detect_duplicates_empty [OF pos iteration_order_id iteration_order_rev h]
    detect_duplicates_empty [OF pos iteration_order_id iteration_order_rev h'] h h'
  show ?thesis by simp
qed

text \<open>
  Claim C10. \<open>build_maximal_block\<close> returns a block for every group of occurrences
  whose seed windows lie in their files: an iteration of the backward loop lowers every
  start offset, an iteration of the forward loop keeps the length within the first
  occurrence's file; and \<open>detect_duplicates\<close> returns a list for every input.
\<close>

theorem build_maximal_block_terminates:
  "(occs \<noteq> [] \<and> (\<forall>oc\<in>set occs. file_index oc < length files
        \<and> start oc + seed_len \<le> length (FileData.lines (files ! file_index oc)))
      \<longrightarrow> (\<exists>b. build_maximal_block files occs seed_len ign = Some b))
   \<and> (can_extend_backward files ign occs = Some True
      \<longrightarrow> (\<forall>oc\<in>set occs. start (step_back oc) < start oc))
   \<and> (can_extend_forward files ign occs len = Some True
      \<longrightarrow> occs \<noteq> []
          \<and> start (hd occs) + (len + 1) \<le> length (FileData.lines (files ! file_index (hd occs))))
   \<and> (iteration_order seed_order
      \<longrightarrow> (\<exists>out. detect_duplicates fs files_paths min_lines ign seed_order content_order
                   = Some out))"
proof (intro conjI impI)
  assume "occs \<noteq> [] \<and> (\<forall>oc\<in>set occs. file_index oc < length files
        \<and> start oc + seed_len \<le> length (FileData.lines (files ! file_index oc)))"
  then have "occs \<noteq> []" "\<forall>oc\<in>set occs. valid_occ files seed_len oc"
    by (simp_all add: valid_occ_def flines_def)
  then show "\<exists>b. build_maximal_block files occs seed_len ign = Some b"
    by (rule build_maximal_block_total)
next
  assume "can_extend_backward files ign occs = Some True"
  from can_extend_backward_True(2) [OF this]
  show "\<forall>oc\<in>set occs. start (step_back oc) < start oc"
    by (simp add: step_back_def)
next
  assume a: "can_extend_forward files ign occs len = Some True"
  then show "occs \<noteq> []"
    by (auto simp: can_extend_forward_def)
  from a show "start (hd occs) + (len + 1) \<le> length (FileData.lines (files ! file_index (hd occs)))"
    by (cases occs) (auto simp: can_extend_forward_def Let_def split: if_splits)
next
  assume "iteration_order seed_order"
  from find_blocks_total [OF this]
  show "\<exists>out. detect_duplicates fs files_paths min_lines ign seed_order content_order = Some out"
    by (simp add: detect_duplicates_def find_repeated_blocks_def)
qed

theorem build_maximal_block_terminates_witness:
  "(\<exists>b. build_maximal_block (load_files scenario_a [''file1'', ''file2''])
          [\<lparr>file_index = 0, start = 2\<rparr>, \<lparr>file_index = 1, start = 1\<rparr>] 3 False = Some b)
   \<and> start (step_back \<lparr>file_index = 0, start = 2\<rparr>) < 2
   \<and> start (step_back \<lparr>file_index = 1, start = 1\<rparr>) < 1
   \<and> start \<lparr>file_index = 0, start = 1\<rparr> + ((3::nat) + 1)
        \<le> length (FileData.lines (load_files scenario_a [''file1'', ''file2''] ! 0))
   \<and> (\<exists>out. detect_duplicates scenario_a [''file1'', ''file2''] 3 False rev rev = Some out)"
proof -
  let ?files = "load_files scenario_a [''file1'', ''file2'']"
  let ?occs = "[\<lparr>file_index = 0, start = 2\<rparr>, \<lparr>file_index = 1, start = 1\<rparr>]"
  let ?occs' = "[\<lparr>file_index = 0, start = 1\<rparr>, \<lparr>file_index = 1, start = 0\<rparr>]"
  have files: "?files = [\<lparr>FileData.path = ''file1'', lines = [''A'', ''B'', ''C'', ''D'', ''E'']\<rparr>,
                         \<lparr>FileData.path = ''file2'', lines = [''B'', ''C'', ''D'', ''E'', ''F'']\<rparr>]"
    by code_simp
  have valid: "?occs \<noteq> [] \<and> (\<forall>oc\<in>set ?occs. file_index oc < length ?files
        \<and> start oc + 3 \<le> length (FileData.lines (?files ! file_index oc)))"
    unfolding files by simp
  have cb: "can_extend_backward ?files False ?occs = Some True"
    by code_simp
  have cf: "can_extend_forward ?files False ?occs' 3 = Some True"
    by code_simp
  note t1 = build_maximal_block_terminates [of ?occs ?files 3 False 0 rev scenario_a "[]" 0 id]
  note t2 = build_maximal_block_terminates [of ?occs' ?files 3 False 3 rev scenario_a
      "[''file1'', ''file2'']" 3 rev]
  from t1 valid have p1: "\<exists>b. build_maximal_block ?files ?occs 3 False = Some b"
    by blast
  from t1 cb have "\<forall>oc\<in>set ?occs. start (step_back oc) < start oc"
    by blast
  then have p2: "start (step_back \<lparr>file_index = 0, start = 2\<rparr>) < 2"
      "start (step_back \<lparr>file_index = 1, start = 1\<rparr>) < 1"
    by simp_all
  from t2 cf have "start (hd ?occs') + (3 + 1)
      \<le> length (FileData.lines (?files ! file_index (hd ?occs')))"
    by blast
  then have p3: "start \<lparr>file_index = 0, start = 1\<rparr> + ((3::nat) + 1)
      \<le> length (FileData.lines (?files ! 0))"
    by simp
  from t2 iteration_order_rev
  have p4: "\<exists>out. detect_duplicates scenario_a [''file1'', ''file2''] 3 False rev rev = Some out"
    by blast
  from p1 p2 p3 p4 show ?thesis by blast
qed

end
